theory Spec2Isabelle
  imports Main "HOL-Library.AList"
begin

section \<open>The event bus of \<^verbatim>\<open>packages/core/useEventBus\<close>\<close>

subsection \<open>Values, functions and the registry\<close>

text \<open>
  Bus identifiers (\<^verbatim>\<open>EventBusIdentifier\<close>: symbol, string or number), event names and
  payloads are JavaScript values. The source compares a bus identifier with event names
  (\<^verbatim>\<open>handlerMap.get(key)\<close> in \<^verbatim>\<open>on\<close>), so the three live in one type. An omitted
  argument of \<^verbatim>\<open>emit\<close> is \<open>Undefined\<close>.
\<close>

datatype val = Undefined | Str string | Num int | Sym nat

text \<open>
  Function values are compared by reference (\<^verbatim>\<open>indexOf\<close>). A function of the caller
  is \<open>UserFn n\<close>, \<open>n\<close> being its identity; calling it is recorded in the call log and has
  no other effect (a listener that throws, or that calls the bus itself, is outside the
  model). The closures \<^verbatim>\<open>_listener\<close> and \<^verbatim>\<open>_handler\<close> that \<^verbatim>\<open>once\<close> creates
  are \<open>OnceListener\<close> and \<open>OnceHandler\<close>: each carries the identity it got when it was
  created, and what it captured (the \<^verbatim>\<open>key\<close> of its handle, the event, the wrapped
  function).
\<close>

datatype fn =
    UserFn nat
  | OnceListener nat val fn
  | OnceHandler nat val val fn

text \<open>The rest parameter \<^verbatim>\<open>...args\<close> of \<^verbatim>\<open>on\<close>, \<^verbatim>\<open>once\<close> and \<^verbatim>\<open>off\<close>, in its two shapes.\<close>

datatype args = One fn | Two val fn

text \<open>
  \<^verbatim>\<open>interface Listeners\<close>. Both fields hold objects that are mutated in place, and
  \<^verbatim>\<open>on\<close> can store one array under two event names, so arrays live in a store and the
  fields hold addresses. \<^verbatim>\<open>handlerMap\<close> is a \<^verbatim>\<open>Map\<close>: an association list with
  \<open>AList.update\<close> (an existing key keeps its place) and \<open>AList.delete\<close>.
\<close>

record Listeners =
  listeners :: nat
  handlerMap :: "(val \<times> nat) list"

text \<open>The function \<^verbatim>\<open>_off\<close> that \<^verbatim>\<open>on\<close> returns: the \<^verbatim>\<open>key\<close> and the arguments it captured.\<close>

type_synonym stop = "val \<times> args"

text \<open>
  The state: \<^verbatim>\<open>events\<close> (the module-level \<^verbatim>\<open>Map\<close> of \<^verbatim>\<open>internal.ts\<close>), the store of
  arrays with its next free address, the next closure identity, the log of the calls of
  user functions (identity and argument list), and the \<^verbatim>\<open>cleanups\<close> arrays of the effect
  scopes.
\<close>

record state =
  events :: "(val \<times> Listeners) list"
  heap :: "nat \<Rightarrow> fn list"
  next_addr :: nat
  next_fn :: nat
  calls :: "(nat \<times> val list) list"
  cleanups :: "(nat \<times> stop) list"

definition init :: state where
  "init = \<lparr>events = [], heap = (\<lambda>_. []), next_addr = 0, next_fn = 0, calls = [], cleanups = []\<rparr>"

text \<open>
  A handle: \<^verbatim>\<open>useEventBus(key)\<close> captures \<^verbatim>\<open>key\<close> and \<^verbatim>\<open>getCurrentScope()\<close>, which is
  the active scope or \<^verbatim>\<open>undefined\<close>.
\<close>

record bus =
  bus_key :: val
  bus_scope :: "nat option"

definition useEventBus :: "val \<Rightarrow> nat option \<Rightarrow> bus" where
  "useEventBus key scope = \<lparr>bus_key = key, bus_scope = scope\<rparr>"

subsection \<open>Maps and arrays\<close>

definition events_get :: "val \<Rightarrow> state \<Rightarrow> Listeners option" where
  "events_get key s = map_of (events s) key"

definition events_set :: "val \<Rightarrow> Listeners \<Rightarrow> state \<Rightarrow> state" where
  "events_set key r s = s\<lparr>events := AList.update key r (events s)\<rparr>"

definition events_delete :: "val \<Rightarrow> state \<Rightarrow> state" where
  "events_delete key s = s\<lparr>events := AList.delete key (events s)\<rparr>"

text \<open>An array literal \<^verbatim>\<open>[]\<close>: a fresh address holding the empty array.\<close>

definition new_array :: "state \<Rightarrow> nat \<times> state" where
  "new_array s =
     (next_addr s, s\<lparr>heap := (heap s)(next_addr s := []), next_addr := Suc (next_addr s)\<rparr>)"

definition push :: "nat \<Rightarrow> fn \<Rightarrow> state \<Rightarrow> state" where
  "push a f s = s\<lparr>heap := (heap s)(a := heap s a @ [f])\<rparr>"

text \<open>\<^verbatim>\<open>Array.prototype.indexOf\<close>: the first index holding the element, or \<open>-1\<close>.\<close>

fun indexOf :: "fn list \<Rightarrow> fn \<Rightarrow> int" where
  "indexOf [] f = -1"
| "indexOf (x # xs) f =
     (if x = f then 0 else (let i = indexOf xs f in if i > -1 then i + 1 else -1))"

text \<open>\<^verbatim>\<open>array.splice(index, 1)\<close> for an index that \<^verbatim>\<open>indexOf\<close> returned.\<close>

definition splice :: "nat \<Rightarrow> int \<Rightarrow> state \<Rightarrow> state" where
  "splice a index s =
     s\<lparr>heap := (heap s)(a := take (nat index) (heap s a) @ drop (nat index + 1) (heap s a))\<rparr>"

text \<open>
  \<^verbatim>\<open>handlerMap.set\<close> and \<^verbatim>\<open>handlerMap.delete\<close> on the \<^verbatim>\<open>Map\<close> of a record. The record is
  a value here, so \<^verbatim>\<open>on\<close> and \<^verbatim>\<open>off\<close> write the changed record back under their \<^verbatim>\<open>key\<close>;
  no code of the module reads a \<^verbatim>\<open>Map\<close> it fetched before a listener ran.
\<close>

definition handlerMap_set :: "Listeners \<Rightarrow> val \<Rightarrow> nat \<Rightarrow> Listeners" where
  "handlerMap_set r event a = r\<lparr>handlerMap := AList.update event a (handlerMap r)\<rparr>"

definition handlerMap_delete :: "Listeners \<Rightarrow> val \<Rightarrow> Listeners" where
  "handlerMap_delete r event = r\<lparr>handlerMap := AList.delete event (handlerMap r)\<rparr>"

subsection \<open>\<^verbatim>\<open>on\<close>\<close>

text \<open>
  \<^verbatim>\<open>events.get(key) || { listeners: [], handlerMap: new Map() }\<close>: the registered record,
  or a new one with a new \<^verbatim>\<open>listeners\<close> array.
\<close>

definition get_or_new :: "val \<Rightarrow> state \<Rightarrow> Listeners \<times> state" where
  "get_or_new key s =
     (case events_get key s of
        Some r \<Rightarrow> (r, s)
      | None \<Rightarrow> (let (a, s') = new_array s in (\<lparr>listeners = a, handlerMap = []\<rparr>, s')))"

text \<open>\<^verbatim>\<open>scope?.cleanups?.push(_off)\<close>.\<close>

definition scope_push :: "bus \<Rightarrow> stop \<Rightarrow> state \<Rightarrow> state" where
  "scope_push b the_off s =
     (case bus_scope b of
        None \<Rightarrow> s
      | Some sc \<Rightarrow> s\<lparr>cleanups := cleanups s @ [(sc, the_off)]\<rparr>)"

text \<open>
  The second branch reads \<^verbatim>\<open>handlerMap.get(key)\<close>, the bus identifier, and stores the
  array it pushed to under \<^verbatim>\<open>event\<close>.
\<close>

fun on :: "bus \<Rightarrow> args \<Rightarrow> state \<Rightarrow> stop \<times> state" where
  "on b (One listener) s =
     (let (listenerRecord, s1) = get_or_new (bus_key b) s;
          s2 = push (listeners listenerRecord) listener s1;
          s3 = events_set (bus_key b) listenerRecord s2;
          the_off = (bus_key b, One listener)
      in (the_off, scope_push b the_off s3))"
| "on b (Two event handler) s =
     (let (listenerRecord, s1) = get_or_new (bus_key b) s;
          (eventFreeHandlers, s2) =
             (case map_of (handlerMap listenerRecord) (bus_key b) of
                Some a \<Rightarrow> (a, s1)
              | None \<Rightarrow> new_array s1);
          s3 = push eventFreeHandlers handler s2;
          s4 = events_set (bus_key b)
                 (handlerMap_set listenerRecord event eventFreeHandlers) s3;
          the_off = (bus_key b, Two event handler)
      in (the_off, scope_push b the_off s4))"

subsection \<open>\<^verbatim>\<open>off\<close> and \<^verbatim>\<open>reset\<close>\<close>

text \<open>
  In the second branch, an event without a sequence gives the fresh empty array of
  \<^verbatim>\<open>handlerMap.get(event) || []\<close>: \<^verbatim>\<open>indexOf\<close> is \<open>-1\<close>, the length is \<open>0\<close>, so
  \<^verbatim>\<open>handlerMap.delete(event)\<close> runs, and then the size test.
\<close>

fun off :: "val \<Rightarrow> args \<Rightarrow> state \<Rightarrow> state" where
  "off key (One listener) s =
     (case events_get key s of
        None \<Rightarrow> s
      | Some r \<Rightarrow>
          (let a = listeners r;
               index = indexOf (heap s a) listener;
               s1 = (if index > -1 then splice a index s else s)
           in if length (heap s1 a) = 0 then events_delete key s1 else s1))"
| "off key (Two event handler) s =
     (case events_get key s of
        None \<Rightarrow> s
      | Some r \<Rightarrow>
          (let (s1, r1) =
                 (case map_of (handlerMap r) event of
                    None \<Rightarrow> (s, handlerMap_delete r event)
                  | Some a \<Rightarrow>
                      (let index = indexOf (heap s a) handler;
                           s' = (if index > -1 then splice a index s else s)
                       in (s', if length (heap s' a) = 0
                               then handlerMap_delete r event else r)));
               s2 = events_set key r1 s1
           in if length (handlerMap r1) = 0 then events_delete key s2 else s2))"

definition reset :: "val \<Rightarrow> state \<Rightarrow> state" where
  "reset key s = events_delete key s"

definition call_stop :: "stop \<Rightarrow> state \<Rightarrow> state" where
  "call_stop the_off s = off (fst the_off) (snd the_off) s"

subsection \<open>\<^verbatim>\<open>once\<close> and calling a function\<close>

fun once :: "bus \<Rightarrow> args \<Rightarrow> state \<Rightarrow> stop \<times> state" where
  "once b (One listener) s =
     on b (One (OnceListener (next_fn s) (bus_key b) listener))
        (s\<lparr>next_fn := Suc (next_fn s)\<rparr>)"
| "once b (Two event handler) s =
     on b (Two event (OnceHandler (next_fn s) (bus_key b) event handler))
        (s\<lparr>next_fn := Suc (next_fn s)\<rparr>)"

text \<open>
  Calling a function value with the argument list \<open>argv\<close>. The closures of \<^verbatim>\<open>once\<close>
  first call \<^verbatim>\<open>off\<close> on themselves, then the function they wrap.
\<close>

fun invoke :: "fn \<Rightarrow> val list \<Rightarrow> state \<Rightarrow> state" where
  "invoke (UserFn n) argv s = s\<lparr>calls := calls s @ [(n, argv)]\<rparr>"
| "invoke (OnceListener u key listener) argv s =
     invoke listener argv (off key (One (OnceListener u key listener)) s)"
| "invoke (OnceHandler u key event handler) argv s =
     invoke handler argv (off key (Two event (OnceHandler u key event handler)) s)"

subsection \<open>\<^verbatim>\<open>emit\<close>\<close>

text \<open>
  \<^verbatim>\<open>Array.prototype.forEach\<close> reads the length once, then visits the indices
  \<open>0, 1, \<dots>\<close> below it in turn and calls the callback on each index that the array
  still has at that moment. The array is the live one: a callback that shortens it moves
  the later elements down. The first argument counts the indices still to visit.
\<close>

fun forEach_from :: "nat \<Rightarrow> nat \<Rightarrow> nat \<Rightarrow> (fn \<Rightarrow> state \<Rightarrow> state) \<Rightarrow> state \<Rightarrow> state" where
  "forEach_from 0 k a cb s = s"
| "forEach_from (Suc n) k a cb s =
     forEach_from n (Suc k) a cb
       (if k < length (heap s a) then cb (heap s a ! k) s else s)"

definition forEach :: "nat \<Rightarrow> (fn \<Rightarrow> state \<Rightarrow> state) \<Rightarrow> state \<Rightarrow> state" where
  "forEach a cb s = forEach_from (length (heap s a)) 0 a cb s"

definition emit :: "val \<Rightarrow> val \<Rightarrow> val \<Rightarrow> state \<Rightarrow> state" where
  "emit key event payload s =
     (case events_get key s of
        None \<Rightarrow> s
      | Some listenerRecord \<Rightarrow>
          (let s1 = (case map_of (handlerMap listenerRecord) event of
                       None \<Rightarrow> s
                     | Some a \<Rightarrow> forEach a (\<lambda>v. invoke v [payload]) s)
           in forEach (listeners listenerRecord) (\<lambda>v. invoke v [event, payload]) s1))"

subsection \<open>Driving a handle\<close>

text \<open>The five operations of the object that \<^verbatim>\<open>useEventBus\<close> returns.\<close>

datatype op = On args | Once args | Off args | Emit val val | Reset

fun apply_op :: "bus \<Rightarrow> op \<Rightarrow> state \<Rightarrow> state" where
  "apply_op b (On a) s = snd (on b a s)"
| "apply_op b (Once a) s = snd (once b a s)"
| "apply_op b (Off a) s = off (bus_key b) a s"
| "apply_op b (Emit event payload) s = emit (bus_key b) event payload s"
| "apply_op b Reset s = reset (bus_key b) s"

text \<open>A sequence of \<^verbatim>\<open>emit\<close> calls, each an event and a payload.\<close>

fun emits :: "val \<Rightarrow> (val \<times> val) list \<Rightarrow> state \<Rightarrow> state" where
  "emits key [] s = s"
| "emits key (ep # es) s = emits key es (emit key (fst ep) (snd ep) s)"

text \<open>A sequence of operations, each through a handle.\<close>

fun run :: "(bus \<times> op) list \<Rightarrow> state \<Rightarrow> state" where
  "run [] s = s"
| "run (x # xs) s = run xs (apply_op (fst x) (snd x) s)"

subsection \<open>Observations and invariants\<close>

text \<open>The user function that a function value ends up calling, and the plain ones.\<close>

fun user_id :: "fn \<Rightarrow> nat" where
  "user_id (UserFn n) = n"
| "user_id (OnceListener u key f) = user_id f"
| "user_id (OnceHandler u key event f) = user_id f"

fun is_user :: "fn \<Rightarrow> bool" where
  "is_user (UserFn n) = True"
| "is_user (OnceListener u key f) = False"
| "is_user (OnceHandler u key event f) = False"

definition args_fn :: "args \<Rightarrow> fn" where
  "args_fn a = (case a of One f \<Rightarrow> f | Two event f \<Rightarrow> f)"

text \<open>How often the user function \<open>n\<close> was called.\<close>

definition count_calls :: "nat \<Rightarrow> (nat \<times> val list) list \<Rightarrow> nat" where
  "count_calls n cs = length (filter (\<lambda>c. fst c = n) cs)"

text \<open>The calls made since the log had \<open>m\<close> entries.\<close>

definition calls_since :: "nat \<Rightarrow> state \<Rightarrow> (nat \<times> val list) list" where
  "calls_since m s = drop m (calls s)"

text \<open>
  The Bus Entry of an identifier with its arrays read from the store: the global listeners
  and, for each event name of the \<^verbatim>\<open>handlerMap\<close>, its handlers.
\<close>

definition entry_of :: "val \<Rightarrow> state \<Rightarrow> (fn list \<times> (val \<times> fn list) list) option" where
  "entry_of key s =
     (case events_get key s of
        None \<Rightarrow> None
      | Some r \<Rightarrow> Some (heap s (listeners r), map (\<lambda>(e, a). (e, heap s a)) (handlerMap r)))"

text \<open>The handler sequence that \<^verbatim>\<open>emit\<close> finds for an event in a record.\<close>

definition handlers_for :: "state \<Rightarrow> Listeners \<Rightarrow> val \<Rightarrow> fn list" where
  "handlers_for s r event =
     (case map_of (handlerMap r) event of None \<Rightarrow> [] | Some a \<Rightarrow> heap s a)"

text \<open>The addresses a record holds.\<close>

definition addrs :: "Listeners \<Rightarrow> nat list" where
  "addrs r = listeners r # map snd (handlerMap r)"

text \<open>
  A function value that belongs to the bus \<open>key\<close>: a user function, or a closure that a
  handle of \<open>key\<close> made with \<^verbatim>\<open>once\<close>.
\<close>

fun owned :: "val \<Rightarrow> fn \<Rightarrow> bool" where
  "owned key (UserFn n) = True"
| "owned key (OnceListener u key' f) = (key' = key \<and> owned key f)"
| "owned key (OnceHandler u key' event f) = (key' = key \<and> owned key f)"

text \<open>
  An operation whose function belongs to the bus of its handle. The operations of a caller
  are such: callers hold user functions only, the closures of \<^verbatim>\<open>once\<close> never leave the
  module.
\<close>

definition op_ok :: "bus \<Rightarrow> op \<Rightarrow> bool" where
  "op_ok b x =
     (case x of
        On a \<Rightarrow> owned (bus_key b) (args_fn a)
      | Once a \<Rightarrow> owned (bus_key b) (args_fn a)
      | Off a \<Rightarrow> True
      | Emit event payload \<Rightarrow> True
      | Reset \<Rightarrow> True)"

text \<open>
  A record \<open>r\<close> registered under the identifier \<open>k\<close> is in order: its \<^verbatim>\<open>listeners\<close> array
  is none of its handler arrays, its arrays were allocated, and every function in them
  belongs to \<open>k\<close>.
\<close>

definition entry_ok :: "state \<Rightarrow> val \<Rightarrow> Listeners \<Rightarrow> bool" where
  "entry_ok s k r \<longleftrightarrow>
     listeners r \<notin> set (map snd (handlerMap r)) \<and>
     (\<forall>a \<in> set (addrs r). a < next_addr s \<and> (\<forall>f \<in> set (heap s a). owned k f))"

text \<open>
  What holds of every state the module can be in: the registry has one record per
  identifier, every record is in order, and records of different identifiers share no
  array.
\<close>

definition registry_ok :: "state \<Rightarrow> bool" where
  "registry_ok s \<longleftrightarrow>
     distinct (map fst (events s)) \<and>
     (\<forall>(k, r) \<in> set (events s). entry_ok s k r) \<and>
     (\<forall>(k, r) \<in> set (events s). \<forall>(k', r') \<in> set (events s).
        k \<noteq> k' \<longrightarrow> set (addrs r) \<inter> set (addrs r') = {})"

text \<open>
  The entry of \<open>key\<close>, if there is one, holds only user functions, none of them the user
  function \<open>n\<close>.
\<close>

definition plain_without :: "nat \<Rightarrow> val \<Rightarrow> state \<Rightarrow> bool" where
  "plain_without n key s =
     (case events_get key s of
        None \<Rightarrow> True
      | Some r \<Rightarrow> (\<forall>a \<in> set (addrs r). \<forall>f \<in> set (heap s a). is_user f \<and> f \<noteq> UserFn n))"

text \<open>The entry of \<open>key\<close>, if there is one, holds only user functions.\<close>

definition plain_bus :: "val \<Rightarrow> state \<Rightarrow> bool" where
  "plain_bus key s =
     (case events_get key s of
        None \<Rightarrow> True
      | Some r \<Rightarrow> (\<forall>a \<in> set (addrs r). \<forall>f \<in> set (heap s a). is_user f))"

text \<open>Whether an \<^verbatim>\<open>emit\<close> of \<open>event\<close> matches a registration made with the arguments.\<close>

definition matching :: "args \<Rightarrow> val \<Rightarrow> bool" where
  "matching a event = (case a of One f \<Rightarrow> True | Two event' f \<Rightarrow> event = event')"

text \<open>The arguments that \<^verbatim>\<open>emit\<close> passes to a function registered with the arguments \<open>a\<close>.\<close>

definition passed :: "args \<Rightarrow> val \<Rightarrow> val \<Rightarrow> val list" where
  "passed a event payload = (case a of One f \<Rightarrow> [event, payload] | Two event' f \<Rightarrow> [payload])"

text \<open>The addresses that the record of an identifier holds, none without a record.\<close>

definition kaddrs :: "val \<Rightarrow> state \<Rightarrow> nat list" where
  "kaddrs key s = (case events_get key s of None \<Rightarrow> [] | Some r \<Rightarrow> addrs r)"


subsection \<open>Scenarios\<close>

definition news :: bus where
  "news = useEventBus (Str ''news'') None"

text \<open>\<^verbatim>\<open>bus.on('e', H1); bus.on('e', H2)\<close>.\<close>

definition two_scoped :: state where
  "two_scoped =
     snd (on news (Two (Str ''e'') (UserFn 2)) (snd (on news (Two (Str ''e'') (UserFn 1)) init)))"

text \<open>\<^verbatim>\<open>bus.on(L1); bus.on('e', H2)\<close>.\<close>

definition global_and_scoped :: state where
  "global_and_scoped =
     snd (on news (Two (Str ''e'') (UserFn 2)) (snd (on news (One (UserFn 1)) init)))"

text \<open>\<^verbatim>\<open>bus.on('e', H1)\<close>.\<close>

definition one_scoped :: state where
  "one_scoped = snd (on news (Two (Str ''e'') (UserFn 1)) init)"

text \<open>\<^verbatim>\<open>bus.on(L1)\<close>.\<close>

definition one_global :: state where
  "one_global = snd (on news (One (UserFn 1)) init)"

text \<open>\<^verbatim>\<open>stop = bus.on(L1); stop(); bus.on('e', H2)\<close>, with \<open>stop\<close> kept.\<close>

definition stopped_then_scoped :: "stop \<times> state" where
  "stopped_then_scoped =
     (let (stop, s1) = on news (One (UserFn 1)) init;
          s2 = call_stop stop s1
      in (stop, snd (on news (Two (Str ''e'') (UserFn 2)) s2)))"

text \<open>\<^verbatim>\<open>bus.on(L1); bus.on('specific', S2)\<close>, the scenario of the documentation.\<close>

definition news_specific :: state where
  "news_specific =
     snd (on news (Two (Str ''specific'') (UserFn 2)) (snd (on news (One (UserFn 1)) init)))"

text \<open>\<^verbatim>\<open>bus.once(L1); bus.on(L2); bus.on('specific', S3)\<close>.\<close>

definition once_on_specific :: state where
  "once_on_specific =
     snd (on news (Two (Str ''specific'') (UserFn 3))
       (snd (on news (One (UserFn 2)) (snd (once news (One (UserFn 1)) init)))))"

text \<open>\<^verbatim>\<open>bus.once(L1); bus.on(L2)\<close>.\<close>

definition once_then_on :: state where
  "once_then_on = snd (on news (One (UserFn 2)) (snd (once news (One (UserFn 1)) init)))"

text \<open>\<^verbatim>\<open>bus.on(L1); bus.on(undefined, H2); bus.on('e', H3)\<close>.\<close>

definition undefined_and_named :: state where
  "undefined_and_named =
     snd (on news (Two (Str ''e'') (UserFn 3))
       (snd (on news (Two Undefined (UserFn 2)) (snd (on news (One (UserFn 1)) init)))))"

text \<open>A second handle of the bus \<^verbatim>\<open>'news'\<close>, made inside the effect scope \<open>0\<close>.\<close>

definition news_in_scope :: bus where
  "news_in_scope = useEventBus (Str ''news'') (Some 0)"

text \<open>\<^verbatim>\<open>bus.once(L1)\<close> through the first handle.\<close>

definition once_pending :: state where
  "once_pending = snd (once news (One (UserFn 1)) init)"

text \<open>\<^verbatim>\<open>bus.once(L1); bus.once(L2); bus.once(L3); bus.once(L4)\<close>.\<close>

definition four_once :: state where
  "four_once =
     snd (once news (One (UserFn 4)) (snd (once news (One (UserFn 3))
       (snd (once news (One (UserFn 2)) (snd (once news (One (UserFn 1)) init)))))))"



text \<open>
  A bus whose identifier is also used as an event name: on the bus \<^verbatim>\<open>'e'\<close>,
  \<^verbatim>\<open>bus.on('e', H1); bus.on('x', H2)\<close>.
\<close>

definition bus_e :: bus where
  "bus_e = useEventBus (Str ''e'') None"

definition e_then_x :: state where
  "e_then_x =
     snd (on bus_e (Two (Str ''x'') (UserFn 2)) (snd (on bus_e (Two (Str ''e'') (UserFn 1)) init)))"

text \<open>On the bus \<^verbatim>\<open>'k'\<close>, \<^verbatim>\<open>bus.on('k', H1); bus.on(undefined, H2)\<close>.\<close>

definition bus_k :: bus where
  "bus_k = useEventBus (Str ''k'') None"

definition k_then_undefined :: state where
  "k_then_undefined =
     snd (on bus_k (Two Undefined (UserFn 2)) (snd (on bus_k (Two (Str ''k'') (UserFn 1)) init)))"

section \<open>Properties\<close>

declare on.simps [simp del] once.simps [simp del] off.simps [simp del] invoke.simps [simp del]

lemmas bus_defs =
  on.simps once.simps off.simps invoke.simps init_def useEventBus_def news_def news_in_scope_def bus_e_def bus_k_def
  get_or_new_def events_get_def events_set_def
  events_delete_def new_array_def push_def splice_def handlerMap_set_def handlerMap_delete_def
  scope_push_def reset_def call_stop_def forEach_def emit_def entry_of_def Let_def

subsection \<open>Arrays: \<^verbatim>\<open>indexOf\<close> with \<^verbatim>\<open>splice\<close> removes the first match\<close>

lemma indexOf_notin: "f \<notin> set xs \<Longrightarrow> indexOf xs f = -1"
  by (induction xs) auto

lemma indexOf_in: "f \<in> set xs \<Longrightarrow> indexOf xs f > -1"
  by (induction xs) (auto simp: Let_def)

lemma indexOf_ge: "indexOf xs f \<ge> -1"
  by (induction xs) (auto simp: Let_def)

lemma splice_is_remove1:
  "f \<in> set xs \<Longrightarrow>
   take (nat (indexOf xs f)) xs @ drop (nat (indexOf xs f) + 1) xs = remove1 f xs"
proof (induction xs)
  case Nil
  then show ?case by simp
next
  case (Cons x xs)
  show ?case
  proof (cases "x = f")
    case True
    then show ?thesis by simp
  next
    case False
    with Cons.prems have mem: "f \<in> set xs" by simp
    from indexOf_in [OF mem] have pos: "indexOf xs f > -1" .
    then have "nat (indexOf xs f + 1) = Suc (nat (indexOf xs f))" by simp
    with False pos Cons.IH [OF mem] show ?thesis by (simp add: Let_def)
  qed
qed

lemma splice_step:
  "(if indexOf (heap s a) f > -1 then splice a (indexOf (heap s a) f) s else s) = s\<lparr>heap := (heap s)(a := remove1 f (heap s a))\<rparr>"
proof (cases "f \<in> set (heap s a)")
  case True
  then show ?thesis
    using indexOf_in [OF True] splice_is_remove1 [OF True] by (simp add: splice_def)
next
  case False
  then show ?thesis
    using indexOf_notin [OF False] by (simp add: remove1_idem)
qed

lemma off_One_eq:
  "off key (One f) s =
     (case events_get key s of
        None \<Rightarrow> s
      | Some r \<Rightarrow>
          (if remove1 f (heap s (listeners r)) = []
           then events_delete key (s\<lparr>heap := (heap s)(listeners r := remove1 f (heap s (listeners r)))\<rparr>)
           else s\<lparr>heap := (heap s)(listeners r := remove1 f (heap s (listeners r)))\<rparr>))"
  by (simp add: off.simps splice_step Let_def split: option.splits)

lemma off_Two_eq:
  "off key (Two event f) s =
     (case events_get key s of
        None \<Rightarrow> s
      | Some r \<Rightarrow>
          (case map_of (handlerMap r) event of
             None \<Rightarrow>
               (if AList.delete event (handlerMap r) = [] then events_delete key (events_set key (handlerMap_delete r event) s)
                else events_set key (handlerMap_delete r event) s)
           | Some a \<Rightarrow>
               (let s' = s\<lparr>heap := (heap s)(a := remove1 f (heap s a))\<rparr>;
                    r1 = (if remove1 f (heap s a) = [] then handlerMap_delete r event else r);
                    s2 = events_set key r1 s'
                in if handlerMap r1 = [] then events_delete key s2 else s2)))"
  by (simp add: off.simps splice_step Let_def handlerMap_delete_def split: option.splits)

subsection \<open>\<^verbatim>\<open>forEach\<close> and \<^verbatim>\<open>emit\<close> over user functions\<close>

lemma invoke_user: "is_user f \<Longrightarrow> invoke f argv s = s\<lparr>calls := calls s @ [(user_id f, argv)]\<rparr>"
  by (cases f) (simp_all add: invoke.simps)

lemma forEach_from_plain:
  "\<forall>i<n. k + i < length (heap s a) \<and> is_user (heap s a ! (k + i)) \<Longrightarrow>
   forEach_from (n + m) k a (\<lambda>v. invoke v argv) s =
   forEach_from m (k + n) a (\<lambda>v. invoke v argv)
     (s\<lparr>calls := calls s @ map (\<lambda>f. (user_id f, argv)) (take n (drop k (heap s a)))\<rparr>)"
proof (induction n arbitrary: k s)
  case 0
  then show ?case by simp
next
  case (Suc n)
  let ?x = "heap s a ! k"
  let ?s1 = "s\<lparr>calls := calls s @ [(user_id ?x, argv)]\<rparr>"
  from Suc.prems have here: "k < length (heap s a)" "is_user ?x"
    by (metis add.right_neutral zero_less_Suc)+
  have rest: "\<forall>i<n. Suc k + i < length (heap ?s1 a) \<and> is_user (heap ?s1 a ! (Suc k + i))"
  proof (intro allI impI)
    fix i assume "i < n"
    then have "Suc i < Suc n" by simp
    with Suc.prems have "k + Suc i < length (heap s a) \<and> is_user (heap s a ! (k + Suc i))"
      by blast
    then show "Suc k + i < length (heap ?s1 a) \<and> is_user (heap ?s1 a ! (Suc k + i))"
      by simp
  qed
  have split: "take (Suc n) (drop k (heap s a)) = ?x # take n (drop (Suc k) (heap s a))"
    using here(1) by (simp add: Cons_nth_drop_Suc [symmetric])
  have "forEach_from (Suc n + m) k a (\<lambda>v. invoke v argv) s =
        forEach_from (n + m) (Suc k) a (\<lambda>v. invoke v argv) ?s1"
    using here by (simp add: invoke_user)
  also have "\<dots> = forEach_from m (Suc k + n) a (\<lambda>v. invoke v argv)
       (?s1\<lparr>calls := calls ?s1 @ map (\<lambda>f. (user_id f, argv)) (take n (drop (Suc k) (heap ?s1 a)))\<rparr>)"
    by (rule Suc.IH [OF rest])
  finally show ?case by (simp add: split)
qed

lemma forEach_plain:
  assumes "\<forall>f \<in> set (heap s a). is_user f"
  shows "forEach a (\<lambda>v. invoke v argv) s =
         s\<lparr>calls := calls s @ map (\<lambda>f. (user_id f, argv)) (heap s a)\<rparr>"
proof -
  have "\<forall>i<length (heap s a). 0 + i < length (heap s a) \<and> is_user (heap s a ! (0 + i))"
    using assms by simp
  from forEach_from_plain [OF this, of 0 argv] show ?thesis
    by (simp add: forEach_def)
qed

lemma forEach_plain_then_last:
  assumes arr: "heap s a = xs @ [x]" and plain: "\<forall>f \<in> set xs. is_user f"
  shows "forEach a (\<lambda>v. invoke v argv) s =
         invoke x argv (s\<lparr>calls := calls s @ map (\<lambda>f. (user_id f, argv)) xs\<rparr>)"
proof -
  have "\<forall>i<length xs. 0 + i < length (heap s a) \<and> is_user (heap s a ! (0 + i))"
    using arr plain by (simp add: nth_append)
  from forEach_from_plain [OF this, of 1 argv] show ?thesis
    by (simp add: forEach_def arr)
qed

lemma emit_plain:
  assumes entry: "events_get key s = Some r"
    and hs: "\<forall>f \<in> set (handlers_for s r event). is_user f"
    and ls: "\<forall>f \<in> set (heap s (listeners r)). is_user f"
  shows "emit key event payload s =
         s\<lparr>calls := calls s @ map (\<lambda>f. (user_id f, [payload])) (handlers_for s r event)
                            @ map (\<lambda>f. (user_id f, [event, payload])) (heap s (listeners r))\<rparr>"
proof (cases "map_of (handlerMap r) event")
  case None
  then show ?thesis
    using entry ls by (simp add: emit_def handlers_for_def forEach_plain)
next
  case (Some a)
  with hs have plain_a: "\<forall>f \<in> set (heap s a). is_user f"
    by (simp add: handlers_for_def)
  let ?s1 = "s\<lparr>calls := calls s @ map (\<lambda>f. (user_id f, [payload])) (heap s a)\<rparr>"
  have ls1: "\<forall>f \<in> set (heap ?s1 (listeners r)). is_user f"
    using ls by simp
  show ?thesis
    using entry Some
    by (simp add: emit_def handlers_for_def forEach_plain [OF plain_a] forEach_plain [OF ls1])
qed

subsection \<open>Evaluations on concrete buses\<close>

text \<open>
  C1 asks that \<^verbatim>\<open>on(eventName, handler)\<close> appends to the sequence of \<open>eventName\<close>, so
  that \<^verbatim>\<open>emit(eventName)\<close> calls all registered handlers in order. The code looks the
  sequence up under the bus identifier instead: after \<^verbatim>\<open>on('e', H1); on('e', H2)\<close> on the
  bus \<^verbatim>\<open>'news'\<close> the sequence of \<^verbatim>\<open>'e'\<close> holds \<open>H2\<close> alone, and \<^verbatim>\<open>emit('e', 'p')\<close>
  calls only \<open>H2\<close>.
\<close>

theorem on_scoped_replaces_sequence:
  "entry_of (Str ''news'') two_scoped = Some ([], [(Str ''e'', [UserFn 2])]) \<and>
   calls (emit (Str ''news'') (Str ''e'') (Str ''p'') two_scoped) = [(2, [Str ''p''])]"
  by (simp add: two_scoped_def bus_defs)

text \<open>
  C2 asks that the entry stays while it holds a listener or a handler. After
  \<^verbatim>\<open>on(L1); on('e', H2); off(L1)\<close> the code has deleted the entry although \<open>H2\<close> was
  registered, and \<^verbatim>\<open>emit('e', 'p')\<close> calls nothing. It is the same the other way round:
  after \<^verbatim>\<open>on(L1); on('e', H2); off('e', H2)\<close> the entry is deleted although \<open>L1\<close> was
  registered, and \<^verbatim>\<open>emit('x', 'p')\<close> calls nothing.
\<close>

theorem off_last_listener_drops_handlers:
  "entry_of (Str ''news'') global_and_scoped = Some ([UserFn 1], [(Str ''e'', [UserFn 2])]) \<and>
   entry_of (Str ''news'') (off (Str ''news'') (One (UserFn 1)) global_and_scoped) = None \<and>
   calls (emit (Str ''news'') (Str ''e'') (Str ''p'')
            (off (Str ''news'') (One (UserFn 1)) global_and_scoped)) = [] \<and>
   entry_of (Str ''news'') (off (Str ''news'') (Two (Str ''e'') (UserFn 2)) global_and_scoped) = None \<and>
   calls (emit (Str ''news'') (Str ''x'') (Str ''p'')
            (off (Str ''news'') (Two (Str ''e'') (UserFn 2)) global_and_scoped)) = []"
  by (simp add: global_and_scoped_def bus_defs)

text \<open>
  C3 asks that \<^verbatim>\<open>off\<close> with a listener that is not registered changes nothing. After
  \<^verbatim>\<open>on('e', H1)\<close> the call \<^verbatim>\<open>off(L7)\<close>, of a listener never registered, deletes the
  entry with \<open>H1\<close> in it; after \<^verbatim>\<open>on(L1)\<close> the call \<^verbatim>\<open>off('e', H7)\<close>, of a handler never
  registered under an event without a sequence, deletes the entry with \<open>L1\<close> in it.
\<close>

theorem off_unregistered_listener_deletes_entry:
  "entry_of (Str ''news'') one_scoped = Some ([], [(Str ''e'', [UserFn 1])]) \<and>
   entry_of (Str ''news'') (off (Str ''news'') (One (UserFn 7)) one_scoped) = None \<and>
   entry_of (Str ''news'') one_global = Some ([UserFn 1], []) \<and>
   entry_of (Str ''news'') (off (Str ''news'') (Two (Str ''e'') (UserFn 7)) one_global) = None"
  by (simp add: one_scoped_def one_global_def bus_defs)

text \<open>
  C6 asks that calling the function returned by \<^verbatim>\<open>on\<close> again, once the listener is
  removed, changes nothing. After \<^verbatim>\<open>stop = on(L1); stop(); on('e', H2)\<close> the second
  \<^verbatim>\<open>stop()\<close> deletes the entry with \<open>H2\<close> in it.
\<close>

theorem second_stop_deletes_entry:
  "fst stopped_then_scoped = (Str ''news'', One (UserFn 1)) \<and>
   entry_of (Str ''news'') (snd stopped_then_scoped) = Some ([], [(Str ''e'', [UserFn 2])]) \<and>
   entry_of (Str ''news'') (call_stop (fst stopped_then_scoped) (snd stopped_then_scoped)) = None"
  by (simp add: stopped_then_scoped_def bus_defs)

subsection \<open>The order of \<^verbatim>\<open>emit\<close>\<close>

lemma count_calls_append: "count_calls n (cs @ ds) = count_calls n cs + count_calls n ds"
  by (simp add: count_calls_def)

lemma count_calls_users:
  "\<forall>f \<in> set xs. is_user f \<and> f \<noteq> UserFn n \<Longrightarrow>
   count_calls n (map (\<lambda>f. (user_id f, argv)) xs) = 0"
proof (induction xs)
  case Nil
  then show ?case by (simp add: count_calls_def)
next
  case (Cons x xs)
  then have "user_id x \<noteq> n" by (cases x) auto
  with Cons show ?case by (simp add: count_calls_def)
qed

text \<open>
  C4 asks that \<^verbatim>\<open>emit(eventName, payload)\<close> calls every handler registered for
  \<open>eventName\<close>, then every global listener, and no handler registered under another event
  name. The code breaks it in two ways. On the bus \<^verbatim>\<open>'e'\<close>, after
  \<^verbatim>\<open>on('e', H1); on('x', H2)\<close> the two event names hold one array, because \<^verbatim>\<open>on\<close> looked
  the sequence up under the bus identifier, and \<^verbatim>\<open>emit('e', 'p')\<close> calls \<open>H2\<close>, registered
  under \<^verbatim>\<open>'x'\<close>. And \<^verbatim>\<open>forEach\<close> walks the live array, so a closure of \<^verbatim>\<open>once\<close> that
  removes itself makes the walk miss the next element: after
  \<^verbatim>\<open>once(L1); on(L2); on('specific', S3)\<close> the call \<^verbatim>\<open>emit('specific', 'hello')\<close> calls
  \<open>S3\<close> and \<open>L1\<close> but not the global listener \<open>L2\<close>.
\<close>

theorem emit_calls_handler_of_other_event:
  "entry_of (Str ''e'') e_then_x =
     Some ([], [(Str ''e'', [UserFn 1, UserFn 2]), (Str ''x'', [UserFn 1, UserFn 2])]) \<and>
   calls (emit (Str ''e'') (Str ''e'') (Str ''p'') e_then_x) =
     [(1, [Str ''p'']), (2, [Str ''p''])] \<and>
   entry_of (Str ''news'') once_on_specific =
     Some ([OnceListener 0 (Str ''news'') (UserFn 1), UserFn 2], [(Str ''specific'', [UserFn 3])]) \<and>
   calls (emit (Str ''news'') (Str ''specific'') (Str ''hello'') once_on_specific) =
     [(3, [Str ''hello'']), (1, [Str ''specific'', Str ''hello''])]"
  by (simp add: e_then_x_def once_on_specific_def bus_defs)

text \<open>
  What \<^verbatim>\<open>emit\<close> does with the arrays it finds: when the sequence that the entry holds for
  the event and the sequence of global listeners hold user functions only, it calls the
  functions of the first in sequence order with the payload, then those of the second in
  sequence order with the event name and the payload, calls nothing else and leaves the
  registry as it was.
\<close>

theorem emit_scoped_then_global:
  assumes "events_get key s = Some r"
    and "\<forall>f \<in> set (handlers_for s r event). is_user f"
    and "\<forall>f \<in> set (heap s (listeners r)). is_user f"
  shows "emit key event payload s =
         s\<lparr>calls := calls s @ map (\<lambda>f. (user_id f, [payload])) (handlers_for s r event)
                            @ map (\<lambda>f. (user_id f, [event, payload])) (heap s (listeners r))\<rparr>"
  using assms by (rule emit_plain)

text \<open>
  The scenario of the documentation on a new bus: \<^verbatim>\<open>on(L1); on('specific', S2)\<close>, then
  \<^verbatim>\<open>emit('specific', 'hello')\<close> calls \<open>S2\<close> and then \<open>L1\<close>, and \<^verbatim>\<open>emit('other', 'x')\<close> after
  it calls \<open>L1\<close> alone.
\<close>

theorem emit_scoped_then_global_witness:
  "events_get (Str ''news'') news_specific = Some \<lparr>listeners = 0, handlerMap = [(Str ''specific'', 1)]\<rparr> \<and>
   handlers_for news_specific \<lparr>listeners = 0, handlerMap = [(Str ''specific'', 1)]\<rparr> (Str ''specific'') = [UserFn 2] \<and>
   heap news_specific 0 = [UserFn 1] \<and>
   calls (emit (Str ''news'') (Str ''specific'') (Str ''hello'') news_specific) =
     [(2, [Str ''hello'']), (1, [Str ''specific'', Str ''hello''])] \<and>
   calls (emit (Str ''news'') (Str ''other'') (Str ''x'')
            (emit (Str ''news'') (Str ''specific'') (Str ''hello'') news_specific)) =
     [(2, [Str ''hello'']), (1, [Str ''specific'', Str ''hello'']), (1, [Str ''other'', Str ''x''])]"
proof -
  let ?r = "\<lparr>listeners = 0, handlerMap = [(Str ''specific'', 1)]\<rparr>"
  have entry: "events_get (Str ''news'') news_specific = Some ?r"
    by (simp add: news_specific_def bus_defs)
  have hs: "handlers_for news_specific ?r (Str ''specific'') = [UserFn 2]"
    by (simp add: news_specific_def handlers_for_def bus_defs)
  have hs': "handlers_for news_specific ?r (Str ''other'') = []"
    by (simp add: handlers_for_def)
  have ls: "heap news_specific 0 = [UserFn 1]"
    by (simp add: news_specific_def bus_defs)
  have log: "calls news_specific = []"
    by (simp add: news_specific_def bus_defs)
  have first: "emit (Str ''news'') (Str ''specific'') (Str ''hello'') news_specific =
      news_specific\<lparr>calls := [(2, [Str ''hello'']), (1, [Str ''specific'', Str ''hello''])]\<rparr>"
    using emit_scoped_then_global [OF entry, of "Str ''specific''" "Str ''hello''"] hs ls log
    by simp
  let ?s1 = "news_specific\<lparr>calls := [(2, [Str ''hello'']), (1, [Str ''specific'', Str ''hello''])]\<rparr>"
  have entry1: "events_get (Str ''news'') ?s1 = Some ?r"
    using entry by (simp add: events_get_def)
  have "calls (emit (Str ''news'') (Str ''other'') (Str ''x'') ?s1) =
      [(2, [Str ''hello'']), (1, [Str ''specific'', Str ''hello'']), (1, [Str ''other'', Str ''x''])]"
    using emit_scoped_then_global [OF entry1, of "Str ''other''" "Str ''x''"] hs' ls
    by (simp add: handlers_for_def)
  with entry hs ls first show ?thesis by simp
qed

text \<open>
  C9 asks that \<^verbatim>\<open>emit()\<close> without an event name calls the handlers registered under the
  undefined key and all global listeners, and no handler registered under a named event.
  On the bus \<^verbatim>\<open>'k'\<close>, after \<^verbatim>\<open>on('k', H1); on(undefined, H2)\<close> the undefined key holds the
  array of \<^verbatim>\<open>'k'\<close>, because \<^verbatim>\<open>on\<close> looked the sequence up under the bus identifier, and
  \<^verbatim>\<open>emit()\<close> calls \<open>H1\<close>, registered under \<^verbatim>\<open>'k'\<close> only. And after \<^verbatim>\<open>once(L1); on(L2)\<close>
  the call \<^verbatim>\<open>emit()\<close> does not reach all global listeners: \<open>L2\<close> is missed.
\<close>

theorem emit_undefined_calls_named_handler:
  "entry_of (Str ''k'') k_then_undefined =
     Some ([], [(Str ''k'', [UserFn 1, UserFn 2]), (Undefined, [UserFn 1, UserFn 2])]) \<and>
   calls (emit (Str ''k'') Undefined Undefined k_then_undefined) =
     [(1, [Undefined]), (2, [Undefined])] \<and>
   entry_of (Str ''news'') once_then_on =
     Some ([OnceListener 0 (Str ''news'') (UserFn 1), UserFn 2], []) \<and>
   calls (emit (Str ''news'') Undefined Undefined once_then_on) = [(1, [Undefined, Undefined])]"
  by (simp add: k_then_undefined_def once_then_on_def bus_defs)

text \<open>
  What \<^verbatim>\<open>emit()\<close> does with the arrays it finds: when the sequence that the entry holds
  under the undefined key and the sequence of global listeners hold user functions only,
  it calls exactly the functions of the first, with the payload, and then those of the
  second; a user function that is in neither of the two arrays is not called.
\<close>

theorem emit_undefined_no_broadcast:
  assumes "events_get key s = Some r"
    and "\<forall>f \<in> set (handlers_for s r Undefined). is_user f"
    and "\<forall>f \<in> set (heap s (listeners r)). is_user f"
  shows "calls_since (length (calls s)) (emit key Undefined payload s) =
           map (\<lambda>f. (user_id f, [payload])) (handlers_for s r Undefined) @
           map (\<lambda>f. (user_id f, [Undefined, payload])) (heap s (listeners r)) \<and>
         (UserFn n \<notin> set (handlers_for s r Undefined) \<and> UserFn n \<notin> set (heap s (listeners r)) \<longrightarrow>
            count_calls n (calls (emit key Undefined payload s)) = count_calls n (calls s))"
proof -
  have eq: "emit key Undefined payload s =
      s\<lparr>calls := calls s @ map (\<lambda>f. (user_id f, [payload])) (handlers_for s r Undefined)
                         @ map (\<lambda>f. (user_id f, [Undefined, payload])) (heap s (listeners r))\<rparr>"
    using assms by (rule emit_plain)
  have "count_calls n (calls (emit key Undefined payload s)) = count_calls n (calls s)"
    if "UserFn n \<notin> set (handlers_for s r Undefined)" "UserFn n \<notin> set (heap s (listeners r))"
  proof -
    have "\<forall>f \<in> set (handlers_for s r Undefined). is_user f \<and> f \<noteq> UserFn n"
      using assms(2) that(1) by blast
    moreover have "\<forall>f \<in> set (heap s (listeners r)). is_user f \<and> f \<noteq> UserFn n"
      using assms(3) that(2) by blast
    ultimately show ?thesis
      by (simp add: eq count_calls_append count_calls_users)
  qed
  then show ?thesis by (simp add: eq calls_since_def)
qed

text \<open>
  On \<^verbatim>\<open>on(L1); on(undefined, H2); on('e', H3)\<close>: \<^verbatim>\<open>emit(undefined, 'p')\<close> calls \<open>H2\<close> and
  \<open>L1\<close>, and \<open>H3\<close>, registered under \<^verbatim>\<open>'e'\<close>, is not called.
\<close>

theorem emit_undefined_no_broadcast_witness:
  "events_get (Str ''news'') undefined_and_named =
     Some \<lparr>listeners = 0, handlerMap = [(Undefined, 1), (Str ''e'', 2)]\<rparr> \<and>
   heap undefined_and_named 0 = [UserFn 1] \<and>
   heap undefined_and_named 1 = [UserFn 2] \<and>
   heap undefined_and_named 2 = [UserFn 3] \<and>
   calls_since 0 (emit (Str ''news'') Undefined (Str ''p'') undefined_and_named) =
     [(2, [Str ''p'']), (1, [Undefined, Str ''p''])] \<and>
   count_calls 3 (calls (emit (Str ''news'') Undefined (Str ''p'') undefined_and_named)) = 0"
proof -
  let ?r = "\<lparr>listeners = 0, handlerMap = [(Undefined, 1), (Str ''e'', 2)]\<rparr>"
  have entry: "events_get (Str ''news'') undefined_and_named = Some ?r"
    by (simp add: undefined_and_named_def bus_defs)
  have arrays: "heap undefined_and_named 0 = [UserFn 1]" "heap undefined_and_named 1 = [UserFn 2]"
      "heap undefined_and_named 2 = [UserFn 3]"
    by (simp_all add: undefined_and_named_def bus_defs)
  have log: "calls undefined_and_named = []"
    by (simp add: undefined_and_named_def bus_defs)
  have hs: "handlers_for undefined_and_named ?r Undefined = [UserFn 2]"
    using arrays by (simp add: handlers_for_def)
  show ?thesis
    using emit_undefined_no_broadcast [OF entry, of "Str ''p''" 3] entry arrays hs log
    by (simp add: count_calls_def)
qed

subsection \<open>Handles with the same identifier\<close>

text \<open>
  C7 asks that a listener subscribed through one handle is called by an \<^verbatim>\<open>emit\<close> through
  another handle of the same identifier. The two handles do work on one entry, but with a
  closure of \<^verbatim>\<open>once\<close> pending in front the listener is missed, as it is through a single
  handle: \<^verbatim>\<open>forEach\<close> walks the live array and the closure removes itself from it. After
  \<^verbatim>\<open>a.once(L1)\<close>, \<^verbatim>\<open>a.on(L2)\<close> and \<^verbatim>\<open>b.emit('x')\<close> call \<open>L1\<close> only.
\<close>

theorem shared_handle_misses_listener:
  "bus_key news = bus_key news_in_scope \<and>
   entry_of (Str ''news'') once_pending = Some ([OnceListener 0 (Str ''news'') (UserFn 1)], []) \<and>
   calls (emit (bus_key news_in_scope) (Str ''x'') Undefined
            (snd (on news (One (UserFn 2)) once_pending))) = [(1, [Str ''x'', Undefined])]"
  by (simp add: once_pending_def bus_defs)

lemma on_One_present:
  assumes "events_get (bus_key b) s = Some r"
  shows "events_get (bus_key b) (snd (on b (One f) s)) = Some r \<and>
         heap (snd (on b (One f) s)) = (heap s)(listeners r := heap s (listeners r) @ [f]) \<and>
         calls (snd (on b (One f) s)) = calls s"
  using assms
  by (simp add: on.simps get_or_new_def events_get_def events_set_def push_def scope_push_def
      update_conv' Let_def split: option.splits)

lemma on_One_absent:
  assumes "events_get (bus_key b) s = None"
  shows "events_get (bus_key b) (snd (on b (One f) s)) =
           Some \<lparr>listeners = next_addr s, handlerMap = []\<rparr> \<and>
         heap (snd (on b (One f) s)) = (heap s)(next_addr s := [f]) \<and>
         calls (snd (on b (One f) s)) = calls s"
  using assms
  by (simp add: on.simps get_or_new_def events_get_def events_set_def push_def scope_push_def
      new_array_def update_conv' Let_def split: option.splits)

lemma handlers_for_addr:
  "handlers_for s r event = [] \<or> (\<exists>a \<in> set (addrs r). handlers_for s r event = heap s a)"
proof (cases "map_of (handlerMap r) event")
  case None
  then show ?thesis by (simp add: handlers_for_def)
next
  case (Some a)
  then have "(event, a) \<in> set (handlerMap r)" by (rule map_of_SomeD)
  then have "a \<in> set (addrs r)" by (force simp: addrs_def)
  with Some show ?thesis by (auto simp: handlers_for_def)
qed

text \<open>
  Two handles with the same identifier work on the same entry: when the entry holds user
  functions only, a listener subscribed through one handle is called, with the event name
  and the payload, by an \<^verbatim>\<open>emit\<close> through the other.
\<close>

theorem shared_entry:
  assumes same: "bus_key a = bus_key b" and plain: "plain_bus (bus_key a) s"
  shows "(n, [event, payload]) \<in>
           set (calls_since (length (calls (snd (on a (One (UserFn n)) s))))
                  (emit (bus_key b) event payload (snd (on a (One (UserFn n)) s))))"
proof -
  let ?s1 = "snd (on a (One (UserFn n)) s)"
  have "\<exists>r1. events_get (bus_key a) ?s1 = Some r1 \<and>
          UserFn n \<in> set (heap ?s1 (listeners r1)) \<and>
          (\<forall>f \<in> set (handlers_for ?s1 r1 event). is_user f) \<and>
          (\<forall>f \<in> set (heap ?s1 (listeners r1)). is_user f)"
  proof (cases "events_get (bus_key a) s")
    case None
    from on_One_absent [OF None, of "UserFn n"] show ?thesis
      by (simp add: handlers_for_def)
  next
    case (Some r)
    note after = on_One_present [OF Some, of "UserFn n"]
    from plain Some have old: "\<forall>x \<in> set (addrs r). \<forall>f \<in> set (heap s x). is_user f"
      by (simp add: plain_bus_def)
    then have new: "\<forall>x \<in> set (addrs r). \<forall>f \<in> set (heap ?s1 x). is_user f"
      using after by auto
    have "\<forall>f \<in> set (handlers_for ?s1 r event). is_user f"
      using handlers_for_addr [of ?s1 r event] new by auto
    moreover have "listeners r \<in> set (addrs r)" by (simp add: addrs_def)
    ultimately show ?thesis using after new by auto
  qed
  then obtain r1 where entry: "events_get (bus_key a) ?s1 = Some r1"
    and mem: "UserFn n \<in> set (heap ?s1 (listeners r1))"
    and hs: "\<forall>f \<in> set (handlers_for ?s1 r1 event). is_user f"
    and ls: "\<forall>f \<in> set (heap ?s1 (listeners r1)). is_user f"
    by blast
  from mem have "(n, [event, payload]) \<in>
      set (map (\<lambda>f. (user_id f, [event, payload])) (heap ?s1 (listeners r1)))"
    by force
  then show ?thesis
    by (simp add: emit_plain [OF entry hs ls] same [symmetric] calls_since_def)
qed

text \<open>
  On the bus of \<^verbatim>\<open>on(L1); on('specific', S2)\<close>: \<open>L5\<close> subscribed through the first handle
  is called by \<^verbatim>\<open>emit('x')\<close> through the handle made in a scope.
\<close>

theorem shared_entry_witness:
  "bus_key news = bus_key news_in_scope \<and> plain_bus (bus_key news) news_specific \<and>
   (5, [Str ''x'', Undefined]) \<in>
     set (calls_since (length (calls (snd (on news (One (UserFn 5)) news_specific))))
            (emit (bus_key news_in_scope) (Str ''x'') Undefined
               (snd (on news (One (UserFn 5)) news_specific))))"
proof -
  have same: "bus_key news = bus_key news_in_scope"
    by (simp add: news_def news_in_scope_def useEventBus_def)
  have plain: "plain_bus (bus_key news) news_specific"
    by (simp add: plain_bus_def addrs_def news_specific_def bus_defs)
  from shared_entry [OF same plain] same plain show ?thesis by blast
qed

subsection \<open>\<^verbatim>\<open>reset\<close>\<close>

text \<open>
  C8: \<^verbatim>\<open>reset\<close> deletes the entry of the identifier whatever it holds, so that an \<^verbatim>\<open>emit\<close>
  after it calls nothing and changes nothing; a second \<^verbatim>\<open>reset\<close>, or a \<^verbatim>\<open>reset\<close> of an
  identifier without entry, changes nothing.
\<close>

theorem reset_deletes_entry:
  "entry_of key (reset key s) = None \<and>
   emit key event payload (reset key s) = reset key s \<and>
   calls (reset key s) = calls s \<and>
   reset key (reset key s) = reset key s \<and>
   (events_get key s = None \<longrightarrow> reset key s = s)"
proof -
  have gone: "events_get key (reset key s) = None"
    by (simp add: reset_def events_delete_def events_get_def delete_conv')
  have "reset key s = s" if "events_get key s = None"
  proof -
    from that have "key \<notin> fst ` set (events s)"
      by (simp add: events_get_def map_of_eq_None_iff)
    then show ?thesis by (simp add: reset_def events_delete_def)
  qed
  with gone show ?thesis
    by (simp add: entry_of_def emit_def reset_def events_delete_def delete_idem)
qed

text \<open>
  On the bus of \<^verbatim>\<open>on(L1); on(undefined, H2); on('e', H3)\<close>, with a global listener and
  handlers under two event names, and on the empty registry.
\<close>

theorem reset_deletes_entry_witness:
  "entry_of (Str ''news'') undefined_and_named =
     Some ([UserFn 1], [(Undefined, [UserFn 2]), (Str ''e'', [UserFn 3])]) \<and>
   entry_of (Str ''news'') (reset (Str ''news'') undefined_and_named) = None \<and>
   calls (emit (Str ''news'') (Str ''e'') (Str ''p'') (reset (Str ''news'') undefined_and_named)) = [] \<and>
   events_get (Str ''news'') init = None \<and> reset (Str ''news'') init = init"
proof -
  have before: "entry_of (Str ''news'') undefined_and_named =
      Some ([UserFn 1], [(Undefined, [UserFn 2]), (Str ''e'', [UserFn 3])])"
    by (simp add: undefined_and_named_def bus_defs)
  have log: "calls undefined_and_named = []"
    by (simp add: undefined_and_named_def bus_defs)
  have absent: "events_get (Str ''news'') init = None"
    by (simp add: events_get_def init_def)
  from reset_deletes_entry [of "Str ''news''" undefined_and_named "Str ''e''" "Str ''p''"]
    reset_deletes_entry [of "Str ''news''" init] before log absent
  show ?thesis by simp
qed

subsection \<open>\<^verbatim>\<open>once\<close>\<close>

lemma snd_update_subset: "snd ` set (AList.update k v al) \<subseteq> insert v (snd ` set al)"
  by (induction al) auto

lemma set_delete_subset: "set (AList.delete k al) \<subseteq> set al"
  by (auto simp: AList.delete_eq)

lemma handlers_for_plain:
  assumes "\<forall>a \<in> set (addrs r). \<forall>f \<in> set (heap s a). P f"
  shows "\<forall>f \<in> set (handlers_for s r event). P f"
  using handlers_for_addr [of s r event] assms by auto

lemma emit_plain_without:
  assumes "plain_without n key s"
  shows "plain_without n key (emit key event payload s) \<and>
         count_calls n (calls (emit key event payload s)) = count_calls n (calls s)"
proof (cases "events_get key s")
  case None
  with assms show ?thesis by (simp add: emit_def)
next
  case (Some r)
  with assms have all: "\<forall>a \<in> set (addrs r). \<forall>f \<in> set (heap s a). is_user f \<and> f \<noteq> UserFn n"
    by (simp add: plain_without_def)
  then have hs: "\<forall>f \<in> set (handlers_for s r event). is_user f \<and> f \<noteq> UserFn n"
    by (rule handlers_for_plain)
  have ls: "\<forall>f \<in> set (heap s (listeners r)). is_user f \<and> f \<noteq> UserFn n"
    using all by (simp add: addrs_def)
  have eq: "emit key event payload s =
      s\<lparr>calls := calls s @ map (\<lambda>f. (user_id f, [payload])) (handlers_for s r event)
                         @ map (\<lambda>f. (user_id f, [event, payload])) (heap s (listeners r))\<rparr>"
    using Some hs ls by (intro emit_plain) auto
  have "plain_without n key (emit key event payload s)"
    using assms Some by (simp add: eq plain_without_def events_get_def)
  moreover have "count_calls n (calls (emit key event payload s)) = count_calls n (calls s)"
    using hs ls by (simp add: eq count_calls_append count_calls_users)
  ultimately show ?thesis by simp
qed

lemma emits_plain_without:
  "plain_without n key s \<Longrightarrow>
   count_calls n (calls (emits key es s)) = count_calls n (calls s)"
proof (induction es arbitrary: s)
  case Nil
  then show ?case by simp
next
  case (Cons ep es)
  from emit_plain_without [OF Cons.prems, of "fst ep" "snd ep"]
  have "plain_without n key (emit key (fst ep) (snd ep) s)"
    and "count_calls n (calls (emit key (fst ep) (snd ep) s)) = count_calls n (calls s)"
    by simp_all
  with Cons.IH show ?case by simp
qed

lemma emit_unfold:
  assumes "events_get key s = Some r"
  shows "emit key event payload s =
         forEach (listeners r) (\<lambda>v. invoke v [event, payload])
           (case map_of (handlerMap r) event of
              None \<Rightarrow> s
            | Some a \<Rightarrow> forEach a (\<lambda>v. invoke v [payload]) s)"
  using assms by (simp add: emit_def)

lemma invoke_once_listener:
  assumes entry: "events_get key s = Some r"
    and arr: "heap s (listeners r) = xs @ [OnceListener u key (UserFn n)]"
    and fresh: "OnceListener u key (UserFn n) \<notin> set xs"
  shows "heap (invoke (OnceListener u key (UserFn n)) argv s) = (heap s)(listeners r := xs) \<and>
         calls (invoke (OnceListener u key (UserFn n)) argv s) = calls s @ [(n, argv)] \<and>
         events (invoke (OnceListener u key (UserFn n)) argv s) =
           (if xs = [] then AList.delete key (events s) else events s)"
  using assms by (simp add: invoke.simps off_One_eq remove1_append events_delete_def)

lemma invoke_once_handler:
  assumes entry: "events_get key s = Some r"
    and ev: "map_of (handlerMap r) event = Some a0"
    and arr: "heap s a0 = xs @ [OnceHandler u key event (UserFn n)]"
    and fresh: "OnceHandler u key event (UserFn n) \<notin> set xs"
  shows "heap (invoke (OnceHandler u key event (UserFn n)) argv s) = (heap s)(a0 := xs) \<and>
         calls (invoke (OnceHandler u key event (UserFn n)) argv s) = calls s @ [(n, argv)] \<and>
         (events_get key (invoke (OnceHandler u key event (UserFn n)) argv s) = None \<or>
          (\<exists>r1. events_get key (invoke (OnceHandler u key event (UserFn n)) argv s) = Some r1 \<and>
                listeners r1 = listeners r \<and> set (handlerMap r1) \<subseteq> set (handlerMap r)))"
  using assms set_delete_subset [of event "handlerMap r"]
  by (simp add: invoke.simps off_Two_eq remove1_append events_delete_def events_set_def events_get_def
      handlerMap_delete_def update_conv' delete_conv' Let_def)

lemma count_calls_single: "count_calls n [(n, argv)] = 1"
  by (simp add: count_calls_def)

lemma count_calls_Cons:
  "count_calls n (c # cs) = (if fst c = n then Suc (count_calls n cs) else count_calls n cs)"
  by (simp add: count_calls_def)

lemma phase1_plain:
  assumes "\<forall>f \<in> set (handlers_for s r event). is_user f"
  shows "(case map_of (handlerMap r) event of
            None \<Rightarrow> s
          | Some a \<Rightarrow> forEach a (\<lambda>v. invoke v argv) s) =
         s\<lparr>calls := calls s @ map (\<lambda>f. (user_id f, argv)) (handlers_for s r event)\<rparr>"
proof (cases "map_of (handlerMap r) event")
  case None
  then show ?thesis by (simp add: handlers_for_def)
next
  case (Some a)
  with assms have "\<forall>f \<in> set (heap s a). is_user f" by (simp add: handlers_for_def)
  from forEach_plain [OF this] Some show ?thesis by (simp add: handlers_for_def)
qed

lemma emit_fires_listener:
  assumes entry: "events_get key s = Some r"
    and arr: "heap s (listeners r) = xs @ [OnceListener u key (UserFn n)]"
    and xs: "\<forall>f \<in> set xs. is_user f \<and> f \<noteq> UserFn n"
    and hm: "\<forall>a \<in> set (map snd (handlerMap r)).
               a \<noteq> listeners r \<and> (\<forall>f \<in> set (heap s a). is_user f \<and> f \<noteq> UserFn n)"
  shows "plain_without n key (emit key event payload s) \<and>
         count_calls n (calls (emit key event payload s)) = count_calls n (calls s) + 1 \<and>
         (n, [event, payload]) \<in> set (calls_since (length (calls s)) (emit key event payload s))"
proof -
  let ?A = "OnceListener u key (UserFn n)"
  let ?hs = "handlers_for s r event"
  have hs: "\<forall>f \<in> set ?hs. is_user f \<and> f \<noteq> UserFn n"
  proof (cases "map_of (handlerMap r) event")
    case None
    then show ?thesis by (simp add: handlers_for_def)
  next
    case (Some a)
    then have "a \<in> set (map snd (handlerMap r))" by (force dest: map_of_SomeD)
    with hm Some show ?thesis by (auto simp: handlers_for_def)
  qed
  let ?s1 = "s\<lparr>calls := calls s @ map (\<lambda>f. (user_id f, [payload])) ?hs\<rparr>"
  let ?s2 = "?s1\<lparr>calls := calls ?s1 @ map (\<lambda>f. (user_id f, [event, payload])) xs\<rparr>"
  let ?t = "invoke ?A [event, payload] ?s2"
  have plain_xs: "\<forall>f \<in> set xs. is_user f" using xs by blast
  have arr1: "heap ?s1 (listeners r) = xs @ [?A]" using arr by simp
  have "emit key event payload s = forEach (listeners r) (\<lambda>v. invoke v [event, payload]) ?s1"
    using hs by (simp add: emit_unfold [OF entry] phase1_plain)
  also have "\<dots> = ?t"
    by (rule forEach_plain_then_last [OF arr1 plain_xs])
  finally have eq: "emit key event payload s = ?t" .
  have entry2: "events_get key ?s2 = Some r" using entry by (simp add: events_get_def)
  have arr2: "heap ?s2 (listeners r) = xs @ [?A]" using arr by simp
  have fresh: "?A \<notin> set xs" using xs by auto
  note after = invoke_once_listener [OF entry2 arr2 fresh, of "[event, payload]"]
  have "plain_without n key ?t"
  proof (cases "xs = []")
    case True
    with after show ?thesis
      by (simp add: plain_without_def events_get_def delete_conv')
  next
    case False
    with after entry have "events_get key ?t = Some r" by (simp add: events_get_def)
    moreover have "\<forall>a \<in> set (addrs r). \<forall>f \<in> set (heap ?t a). is_user f \<and> f \<noteq> UserFn n"
      using after xs hm by (auto simp: addrs_def)
    ultimately show ?thesis by (simp add: plain_without_def)
  qed
  moreover have "count_calls n (calls ?t) = count_calls n (calls s) + 1"
  proof -
    have "calls ?t = calls s @ map (\<lambda>f. (user_id f, [payload])) ?hs
        @ map (\<lambda>f. (user_id f, [event, payload])) xs @ [(n, [event, payload])]"
      using after by simp
    then show ?thesis
      by (simp add: count_calls_append count_calls_users [OF hs] count_calls_users [OF xs]
          count_calls_single)
  qed
  moreover have "(n, [event, payload]) \<in> set (calls_since (length (calls s)) ?t)"
    using after by (simp add: calls_since_def)
  ultimately show ?thesis by (simp only: eq)
qed

lemmas on_defs = on.simps get_or_new_def events_get_def events_set_def push_def scope_push_def
  new_array_def handlerMap_set_def update_conv' Let_def

lemma on_Two_present:
  assumes "events_get (bus_key b) s = Some r"
  shows "events_get (bus_key b) (snd (on b (Two event f) s)) =
           Some (r\<lparr>handlerMap := AList.update event
                   (case map_of (handlerMap r) (bus_key b) of Some a \<Rightarrow> a | None \<Rightarrow> next_addr s)
                   (handlerMap r)\<rparr>) \<and>
         heap (snd (on b (Two event f) s)) =
           (case map_of (handlerMap r) (bus_key b) of
              Some a \<Rightarrow> (heap s)(a := heap s a @ [f])
            | None \<Rightarrow> (heap s)(next_addr s := [f])) \<and>
         calls (snd (on b (Two event f) s)) = calls s"
  using assms by (simp add: on_defs split: option.splits)

lemma on_Two_absent:
  assumes "events_get (bus_key b) s = None"
  shows "events_get (bus_key b) (snd (on b (Two event f) s)) =
           Some \<lparr>listeners = next_addr s, handlerMap = [(event, Suc (next_addr s))]\<rparr> \<and>
         heap (snd (on b (Two event f) s)) =
           (heap s)(next_addr s := [], Suc (next_addr s) := [f]) \<and>
         calls (snd (on b (Two event f) s)) = calls s"
  using assms by (simp add: on_defs split: option.splits)

lemma registry_ok_entry:
  assumes "registry_ok s" and "events_get key s = Some r"
  shows "listeners r \<notin> snd ` set (handlerMap r) \<and> (\<forall>a \<in> set (addrs r). a < next_addr s)"
proof -
  from assms(2) have mem: "(key, r) \<in> set (events s)"
    by (simp add: events_get_def map_of_SomeD)
  from assms(1) have "\<forall>p \<in> set (events s). entry_ok s (fst p) (snd p)"
    by (simp add: registry_ok_def case_prod_beta)
  from bspec [OF this mem] show ?thesis by (simp add: entry_ok_def)
qed

lemma emit_pending_handler:
  assumes entry: "events_get key s = Some r"
    and ev: "map_of (handlerMap r) ev = Some a0"
    and sep: "a0 \<noteq> listeners r"
    and arr: "heap s a0 = xs @ [OnceHandler u key ev (UserFn n)]"
    and xs: "\<forall>f \<in> set xs. is_user f \<and> f \<noteq> UserFn n"
    and ls: "\<forall>f \<in> set (heap s (listeners r)). is_user f \<and> f \<noteq> UserFn n"
    and others: "\<forall>a \<in> snd ` set (handlerMap r).
                   a \<noteq> a0 \<longrightarrow> (\<forall>f \<in> set (heap s a). is_user f \<and> f \<noteq> UserFn n)"
  shows "(event \<noteq> ev \<and> events (emit key event payload s) = events s \<and>
          heap (emit key event payload s) = heap s \<and>
          count_calls n (calls (emit key event payload s)) = count_calls n (calls s)) \<or>
         (plain_without n key (emit key event payload s) \<and>
          count_calls n (calls (emit key event payload s)) = count_calls n (calls s) + 1 \<and>
          (n, [payload]) \<in> set (calls_since (length (calls s)) (emit key event payload s)))"
proof (cases "map_of (handlerMap r) event = Some a0")
  case False
  have hs: "\<forall>f \<in> set (handlers_for s r event). is_user f \<and> f \<noteq> UserFn n"
  proof (cases "map_of (handlerMap r) event")
    case None
    then show ?thesis by (simp add: handlers_for_def)
  next
    case (Some a)
    then have "a \<in> snd ` set (handlerMap r)" by (force dest: map_of_SomeD)
    moreover from Some False have "a \<noteq> a0" by simp
    ultimately show ?thesis using others Some by (auto simp: handlers_for_def)
  qed
  have eq: "emit key event payload s =
      s\<lparr>calls := calls s @ map (\<lambda>f. (user_id f, [payload])) (handlers_for s r event)
                         @ map (\<lambda>f. (user_id f, [event, payload])) (heap s (listeners r))\<rparr>"
    using entry hs ls by (intro emit_plain) auto
  have "event \<noteq> ev" using False ev by auto
  then show ?thesis
    by (simp add: eq count_calls_append count_calls_users [OF hs] count_calls_users [OF ls])
next
  case True
  let ?A = "OnceHandler u key ev (UserFn n)"
  let ?s1 = "s\<lparr>calls := calls s @ map (\<lambda>f. (user_id f, [payload])) xs\<rparr>"
  let ?t1 = "invoke ?A [payload] ?s1"
  let ?t2 = "?t1\<lparr>calls := calls ?t1 @ map (\<lambda>f. (user_id f, [event, payload])) (heap ?t1 (listeners r))\<rparr>"
  have plain_xs: "\<forall>f \<in> set xs. is_user f" using xs by blast
  have ph1: "forEach a0 (\<lambda>v. invoke v [payload]) s = ?t1"
    by (rule forEach_plain_then_last [OF arr plain_xs])
  have entry1: "events_get key ?s1 = Some r" using entry by (simp add: events_get_def)
  have arr1: "heap ?s1 a0 = xs @ [?A]" using arr by simp
  have fresh: "?A \<notin> set xs" using xs by auto
  note after = invoke_once_handler [OF entry1 ev arr1 fresh, of "[payload]"]
  from after have heap1: "heap ?t1 = (heap s)(a0 := xs)" by simp
  from after have calls1: "calls ?t1 = calls s @ map (\<lambda>f. (user_id f, [payload])) xs @ [(n, [payload])]"
    by simp
  have ls1: "heap ?t1 (listeners r) = heap s (listeners r)"
    using sep by (simp add: heap1)
  have plain_ls: "\<forall>f \<in> set (heap ?t1 (listeners r)). is_user f"
    using ls by (simp add: ls1)
  have eq: "emit key event payload s = ?t2"
    using True by (simp add: emit_unfold [OF entry] ph1 forEach_plain [OF plain_ls])
  have reg: "events_get key ?t2 = events_get key ?t1" by (simp add: events_get_def)
  have "plain_without n key ?t2"
  proof (cases "events_get key ?t1")
    case None
    then show ?thesis by (simp add: plain_without_def reg)
  next
    case (Some r1)
    with after have same: "listeners r1 = listeners r" and sub: "set (handlerMap r1) \<subseteq> set (handlerMap r)"
      by auto
    have "\<forall>f \<in> set (heap ?t2 a). is_user f \<and> f \<noteq> UserFn n" if "a \<in> set (addrs r1)" for a
    proof (cases "a = a0")
      case True
      then show ?thesis using xs by (simp add: heap1)
    next
      case False
      from that sub same have "a = listeners r \<or> a \<in> snd ` set (handlerMap r)"
        by (auto simp: addrs_def)
      with False others ls show ?thesis by (auto simp: heap1)
    qed
    with Some show ?thesis by (simp add: plain_without_def reg)
  qed
  moreover have "count_calls n (calls ?t2) = count_calls n (calls s) + 1"
    by (simp add: calls1 ls1 count_calls_append count_calls_Cons count_calls_users [OF xs]
        count_calls_users [OF ls])
  moreover have "(n, [payload]) \<in> set (calls_since (length (calls s)) ?t2)"
    by (simp add: calls1 calls_since_def)
  ultimately show ?thesis by (simp only: eq) simp
qed

lemma emits_pending_handler:
  assumes "events_get key s = Some r"
    and "map_of (handlerMap r) ev = Some a0"
    and "a0 \<noteq> listeners r"
    and "heap s a0 = xs @ [OnceHandler u key ev (UserFn n)]"
    and "\<forall>f \<in> set xs. is_user f \<and> f \<noteq> UserFn n"
    and "\<forall>f \<in> set (heap s (listeners r)). is_user f \<and> f \<noteq> UserFn n"
    and "\<forall>a \<in> snd ` set (handlerMap r).
           a \<noteq> a0 \<longrightarrow> (\<forall>f \<in> set (heap s a). is_user f \<and> f \<noteq> UserFn n)"
  shows "count_calls n (calls (emits key es s)) \<le> count_calls n (calls s) + 1 \<and>
         ((\<exists>ep \<in> set es. fst ep = ev) \<longrightarrow>
            count_calls n (calls (emits key es s)) = count_calls n (calls s) + 1)"
  using assms
proof (induction es arbitrary: s)
  case Nil
  then show ?case by simp
next
  case (Cons ep es)
  let ?s1 = "emit key (fst ep) (snd ep) s"
  from emit_pending_handler [OF Cons.prems, of "fst ep" "snd ep"]
  consider
    (quiet) "fst ep \<noteq> ev" "events ?s1 = events s" "heap ?s1 = heap s"
      "count_calls n (calls ?s1) = count_calls n (calls s)"
  | (fired) "plain_without n key ?s1" "count_calls n (calls ?s1) = count_calls n (calls s) + 1"
    by blast
  then show ?case
  proof cases
    case quiet
    have "count_calls n (calls (emits key es ?s1)) \<le> count_calls n (calls ?s1) + 1 \<and>
         ((\<exists>ep \<in> set es. fst ep = ev) \<longrightarrow>
            count_calls n (calls (emits key es ?s1)) = count_calls n (calls ?s1) + 1)"
      using Cons.prems by (intro Cons.IH) (simp_all add: quiet events_get_def)
    with quiet show ?thesis by simp
  next
    case fired
    from emits_plain_without [OF fired(1), of es] fired(2) show ?thesis by simp
  qed
qed

lemma once_One_state:
  assumes registry_ok: "registry_ok s" and plain: "plain_without n (bus_key b) s"
  shows "\<exists>r xs. events_get (bus_key b) (snd (once b (One (UserFn n)) s)) = Some r \<and>
           heap (snd (once b (One (UserFn n)) s)) (listeners r) =
             xs @ [OnceListener (next_fn s) (bus_key b) (UserFn n)] \<and>
           (\<forall>f \<in> set xs. is_user f \<and> f \<noteq> UserFn n) \<and>
           (\<forall>a \<in> set (map snd (handlerMap r)). a \<noteq> listeners r \<and>
              (\<forall>f \<in> set (heap (snd (once b (One (UserFn n)) s)) a). is_user f \<and> f \<noteq> UserFn n)) \<and>
           calls (snd (once b (One (UserFn n)) s)) = calls s"
proof -
  let ?s0 = "s\<lparr>next_fn := Suc (next_fn s)\<rparr>"
  let ?A = "OnceListener (next_fn s) (bus_key b) (UserFn n)"
  let ?s' = "snd (on b (One ?A) ?s0)"
  have once: "snd (once b (One (UserFn n)) s) = ?s'"
    by (simp add: once.simps)
  show ?thesis
  proof (cases "events_get (bus_key b) s")
    case None
    then have "events_get (bus_key b) ?s0 = None" by (simp add: events_get_def)
    note after = on_One_absent [OF this, of ?A]
    let ?r' = "\<lparr>listeners = next_addr s, handlerMap = []\<rparr>"
    have facts: "events_get (bus_key b) ?s' = Some ?r' \<and>
          heap ?s' (listeners ?r') = [] @ [?A] \<and>
          (\<forall>f \<in> set []. is_user f \<and> f \<noteq> UserFn n) \<and>
          (\<forall>a \<in> set (map snd (handlerMap ?r')). a \<noteq> listeners ?r' \<and>
             (\<forall>f \<in> set (heap ?s' a). is_user f \<and> f \<noteq> UserFn n)) \<and>
          calls ?s' = calls s"
      using after by simp
    show ?thesis unfolding once
      by (rule exI [of _ ?r'], rule exI [of _ "[]"]) (rule facts)
  next
    case (Some r)
    then have "events_get (bus_key b) ?s0 = Some r" by (simp add: events_get_def)
    note after = on_One_present [OF this, of ?A]
    from after have heap': "heap ?s' = (heap s)(listeners r := heap s (listeners r) @ [?A])"
      by simp
    from plain Some have old: "\<forall>a \<in> set (addrs r). \<forall>f \<in> set (heap s a). is_user f \<and> f \<noteq> UserFn n"
      by (simp add: plain_without_def)
    from registry_ok_entry [OF registry_ok Some] have sep: "listeners r \<notin> snd ` set (handlerMap r)" by simp
    have ls: "\<forall>f \<in> set (heap s (listeners r)). is_user f \<and> f \<noteq> UserFn n"
      using old by (simp add: addrs_def)
    have hm: "\<forall>a \<in> set (map snd (handlerMap r)). a \<noteq> listeners r \<and>
        (\<forall>f \<in> set (heap ?s' a). is_user f \<and> f \<noteq> UserFn n)"
    proof
      fix a assume "a \<in> set (map snd (handlerMap r))"
      then have a: "a \<in> snd ` set (handlerMap r)" by simp
      with sep have ne: "a \<noteq> listeners r" by blast
      from a have "a \<in> set (addrs r)" by (simp add: addrs_def)
      with old have "\<forall>f \<in> set (heap s a). is_user f \<and> f \<noteq> UserFn n" by blast
      with ne show "a \<noteq> listeners r \<and> (\<forall>f \<in> set (heap ?s' a). is_user f \<and> f \<noteq> UserFn n)"
        by (simp add: heap')
    qed
    have facts: "events_get (bus_key b) ?s' = Some r \<and>
          heap ?s' (listeners r) = heap s (listeners r) @ [?A] \<and>
          (\<forall>f \<in> set (heap s (listeners r)). is_user f \<and> f \<noteq> UserFn n) \<and>
          (\<forall>a \<in> set (map snd (handlerMap r)). a \<noteq> listeners r \<and>
             (\<forall>f \<in> set (heap ?s' a). is_user f \<and> f \<noteq> UserFn n)) \<and>
          calls ?s' = calls s"
      using after ls hm by (simp add: heap')
    show ?thesis unfolding once
      by (rule exI [of _ r], rule exI [of _ "heap s (listeners r)"]) (rule facts)
  qed
qed

lemma once_Two_state:
  assumes registry_ok: "registry_ok s" and plain: "plain_without n (bus_key b) s"
  shows "\<exists>r a0 xs. events_get (bus_key b) (snd (once b (Two ev (UserFn n)) s)) = Some r \<and>
           map_of (handlerMap r) ev = Some a0 \<and> a0 \<noteq> listeners r \<and>
           heap (snd (once b (Two ev (UserFn n)) s)) a0 =
             xs @ [OnceHandler (next_fn s) (bus_key b) ev (UserFn n)] \<and>
           (\<forall>f \<in> set xs. is_user f \<and> f \<noteq> UserFn n) \<and>
           (\<forall>f \<in> set (heap (snd (once b (Two ev (UserFn n)) s)) (listeners r)).
              is_user f \<and> f \<noteq> UserFn n) \<and>
           (\<forall>a \<in> snd ` set (handlerMap r). a \<noteq> a0 \<longrightarrow>
              (\<forall>f \<in> set (heap (snd (once b (Two ev (UserFn n)) s)) a). is_user f \<and> f \<noteq> UserFn n)) \<and>
           calls (snd (once b (Two ev (UserFn n)) s)) = calls s"
proof -
  let ?s0 = "s\<lparr>next_fn := Suc (next_fn s)\<rparr>"
  let ?A = "OnceHandler (next_fn s) (bus_key b) ev (UserFn n)"
  let ?s' = "snd (on b (Two ev ?A) ?s0)"
  have once: "snd (once b (Two ev (UserFn n)) s) = ?s'"
    by (simp add: once.simps)
  show ?thesis
  proof (cases "events_get (bus_key b) s")
    case None
    then have "events_get (bus_key b) ?s0 = None" by (simp add: events_get_def)
    note after = on_Two_absent [OF this, of ev ?A]
    let ?r' = "\<lparr>listeners = next_addr s, handlerMap = [(ev, Suc (next_addr s))]\<rparr>"
    have facts: "events_get (bus_key b) ?s' = Some ?r' \<and>
          map_of (handlerMap ?r') ev = Some (Suc (next_addr s)) \<and>
          Suc (next_addr s) \<noteq> listeners ?r' \<and>
          heap ?s' (Suc (next_addr s)) = [] @ [?A] \<and>
          (\<forall>f \<in> set []. is_user f \<and> f \<noteq> UserFn n) \<and>
          (\<forall>f \<in> set (heap ?s' (listeners ?r')). is_user f \<and> f \<noteq> UserFn n) \<and>
          (\<forall>a \<in> snd ` set (handlerMap ?r'). a \<noteq> Suc (next_addr s) \<longrightarrow>
             (\<forall>f \<in> set (heap ?s' a). is_user f \<and> f \<noteq> UserFn n)) \<and>
          calls ?s' = calls s"
      using after by simp
    show ?thesis unfolding once
      by (rule exI [of _ ?r'], rule exI [of _ "Suc (next_addr s)"], rule exI [of _ "[]"])
        (rule facts)
  next
    case (Some r)
    then have entry0: "events_get (bus_key b) ?s0 = Some r" by (simp add: events_get_def)
    note after = on_Two_present [OF entry0, of ev ?A]
    from plain Some have old: "\<forall>a \<in> set (addrs r). \<forall>f \<in> set (heap s a). is_user f \<and> f \<noteq> UserFn n"
      by (simp add: plain_without_def)
    from registry_ok_entry [OF registry_ok Some] have sep: "listeners r \<notin> snd ` set (handlerMap r)"
      and below: "\<forall>a \<in> set (addrs r). a < next_addr s" by simp_all
    define a0 where "a0 = (case map_of (handlerMap r) (bus_key b) of Some a \<Rightarrow> a | None \<Rightarrow> next_addr s)"
    define xs where "xs = (case map_of (handlerMap r) (bus_key b) of Some a \<Rightarrow> heap s a | None \<Rightarrow> [])"
    let ?r' = "r\<lparr>handlerMap := AList.update ev a0 (handlerMap r)\<rparr>"
    have entry': "events_get (bus_key b) ?s' = Some ?r'"
      using after by (simp add: a0_def cong: option.case_cong)
    have heap': "heap ?s' = (heap s)(a0 := xs @ [?A])"
      using after by (simp add: a0_def xs_def split: option.splits)
    have calls': "calls ?s' = calls s" using after by simp
    have a0_cases: "a0 \<in> snd ` set (handlerMap r) \<and> xs = heap s a0 \<or> a0 = next_addr s \<and> xs = []"
    proof (cases "map_of (handlerMap r) (bus_key b)")
      case None
      then show ?thesis by (simp add: a0_def xs_def)
    next
      case (Some a)
      then have "(bus_key b, a) \<in> set (handlerMap r)" by (rule map_of_SomeD)
      then have "a \<in> snd ` set (handlerMap r)" by force
      with Some show ?thesis by (simp add: a0_def xs_def)
    qed
    have ls_in: "listeners r \<in> set (addrs r)" by (simp add: addrs_def)
    have hm_in: "a \<in> set (addrs r)" if "a \<in> snd ` set (handlerMap r)" for a
      using that by (simp add: addrs_def)
    have a0_ne: "a0 \<noteq> listeners r"
      using a0_cases
    proof
      assume "a0 \<in> snd ` set (handlerMap r) \<and> xs = heap s a0"
      with sep show ?thesis by blast
    next
      assume "a0 = next_addr s \<and> xs = []"
      with below ls_in show ?thesis by fastforce
    qed
    have xs_ok: "\<forall>f \<in> set xs. is_user f \<and> f \<noteq> UserFn n"
      using a0_cases
    proof
      assume "a0 \<in> snd ` set (handlerMap r) \<and> xs = heap s a0"
      with old hm_in show ?thesis by blast
    next
      assume "a0 = next_addr s \<and> xs = []"
      then show ?thesis by simp
    qed
    have ls_ok: "\<forall>f \<in> set (heap ?s' (listeners r)). is_user f \<and> f \<noteq> UserFn n"
      using a0_ne old ls_in by (simp add: heap')
    have others: "\<forall>a \<in> snd ` set (AList.update ev a0 (handlerMap r)). a \<noteq> a0 \<longrightarrow>
        (\<forall>f \<in> set (heap ?s' a). is_user f \<and> f \<noteq> UserFn n)"
    proof (intro ballI impI)
      fix a f
      assume "a \<in> snd ` set (AList.update ev a0 (handlerMap r))" and ne: "a \<noteq> a0"
        and f: "f \<in> set (heap ?s' a)"
      with snd_update_subset [of ev a0 "handlerMap r"] have "a \<in> snd ` set (handlerMap r)"
        by blast
      then have "a \<in> set (addrs r)" by (rule hm_in)
      moreover from f ne have "f \<in> set (heap s a)" by (simp add: heap')
      ultimately show "is_user f \<and> f \<noteq> UserFn n" using old by blast
    qed
    have facts: "events_get (bus_key b) ?s' = Some ?r' \<and>
          map_of (handlerMap ?r') ev = Some a0 \<and> a0 \<noteq> listeners ?r' \<and>
          heap ?s' a0 = xs @ [?A] \<and>
          (\<forall>f \<in> set xs. is_user f \<and> f \<noteq> UserFn n) \<and>
          (\<forall>f \<in> set (heap ?s' (listeners ?r')). is_user f \<and> f \<noteq> UserFn n) \<and>
          (\<forall>a \<in> snd ` set (handlerMap ?r'). a \<noteq> a0 \<longrightarrow>
             (\<forall>f \<in> set (heap ?s' a). is_user f \<and> f \<noteq> UserFn n)) \<and>
          calls ?s' = calls s"
      using entry' a0_ne xs_ok ls_ok others calls' by (simp add: heap' update_conv')
    show ?thesis unfolding once
      by (rule exI [of _ ?r'], rule exI [of _ a0], rule exI [of _ xs]) (rule facts)
  qed
qed

lemma once_listener_fires_once:
  assumes registry_ok: "registry_ok s" and plain: "plain_without n (bus_key b) s"
  shows "count_calls n (calls (emits (bus_key b) es (snd (once b (One (UserFn n)) s)))) =
           count_calls n (calls s) + (if es = [] then 0 else 1) \<and>
         (n, [event, payload]) \<in> set (calls_since (length (calls s))
             (emit (bus_key b) event payload (snd (once b (One (UserFn n)) s))))"
proof -
  let ?s' = "snd (once b (One (UserFn n)) s)"
  from once_One_state [OF registry_ok plain] obtain r xs where
    entry: "events_get (bus_key b) ?s' = Some r"
    and arr: "heap ?s' (listeners r) = xs @ [OnceListener (next_fn s) (bus_key b) (UserFn n)]"
    and xs: "\<forall>f \<in> set xs. is_user f \<and> f \<noteq> UserFn n"
    and hm: "\<forall>a \<in> set (map snd (handlerMap r)). a \<noteq> listeners r \<and>
               (\<forall>f \<in> set (heap ?s' a). is_user f \<and> f \<noteq> UserFn n)"
    and log: "calls ?s' = calls s"
    by blast
  note fire = emit_fires_listener [OF entry arr xs hm]
  have "count_calls n (calls (emits (bus_key b) es ?s')) =
        count_calls n (calls s) + (if es = [] then 0 else 1)"
  proof (cases es)
    case Nil
    then show ?thesis by (simp add: log)
  next
    case (Cons ep es')
    from fire [of "fst ep" "snd ep"]
    have "plain_without n (bus_key b) (emit (bus_key b) (fst ep) (snd ep) ?s')"
      and "count_calls n (calls (emit (bus_key b) (fst ep) (snd ep) ?s')) = count_calls n (calls s) + 1"
      by (simp_all add: log)
    with emits_plain_without [of n "bus_key b" "emit (bus_key b) (fst ep) (snd ep) ?s'" es']
    show ?thesis by (simp add: Cons)
  qed
  moreover from fire [of event payload]
  have "(n, [event, payload]) \<in> set (calls_since (length (calls s)) (emit (bus_key b) event payload ?s'))"
    by (simp add: log)
  ultimately show ?thesis by simp
qed

lemma once_handler_fires_once:
  assumes registry_ok: "registry_ok s" and plain: "plain_without n (bus_key b) s"
  shows "count_calls n (calls (emits (bus_key b) es (snd (once b (Two ev (UserFn n)) s)))) \<le>
           count_calls n (calls s) + 1 \<and>
         ((\<exists>ep \<in> set es. fst ep = ev) \<longrightarrow>
            count_calls n (calls (emits (bus_key b) es (snd (once b (Two ev (UserFn n)) s)))) =
              count_calls n (calls s) + 1) \<and>
         (n, [payload]) \<in> set (calls_since (length (calls s))
             (emit (bus_key b) ev payload (snd (once b (Two ev (UserFn n)) s))))"
proof -
  let ?s' = "snd (once b (Two ev (UserFn n)) s)"
  from once_Two_state [OF registry_ok plain, of ev] obtain r a0 xs where
    entry: "events_get (bus_key b) ?s' = Some r"
    and ev: "map_of (handlerMap r) ev = Some a0"
    and sep: "a0 \<noteq> listeners r"
    and arr: "heap ?s' a0 = xs @ [OnceHandler (next_fn s) (bus_key b) ev (UserFn n)]"
    and xs: "\<forall>f \<in> set xs. is_user f \<and> f \<noteq> UserFn n"
    and ls: "\<forall>f \<in> set (heap ?s' (listeners r)). is_user f \<and> f \<noteq> UserFn n"
    and others: "\<forall>a \<in> snd ` set (handlerMap r). a \<noteq> a0 \<longrightarrow>
                   (\<forall>f \<in> set (heap ?s' a). is_user f \<and> f \<noteq> UserFn n)"
    and log: "calls ?s' = calls s"
    by blast
  from emits_pending_handler [OF entry ev sep arr xs ls others, of es]
  have "count_calls n (calls (emits (bus_key b) es ?s')) \<le> count_calls n (calls s) + 1 \<and>
        ((\<exists>ep \<in> set es. fst ep = ev) \<longrightarrow>
           count_calls n (calls (emits (bus_key b) es ?s')) = count_calls n (calls s) + 1)"
    by (simp add: log)
  moreover from emit_pending_handler [OF entry ev sep arr xs ls others, of ev payload]
  have "(n, [payload]) \<in> set (calls_since (length (calls s)) (emit (bus_key b) ev payload ?s'))"
    by (simp add: log)
  ultimately show ?thesis by simp
qed

text \<open>
  \<^verbatim>\<open>once\<close> on a bus whose entry holds user functions only, none of them \<open>h\<close>: after
  \<^verbatim>\<open>once(h)\<close>, whatever \<^verbatim>\<open>emit\<close> calls follow, \<open>h\<close> is called at most once; it is called
  exactly once as soon as one of them matches; and the first matching \<^verbatim>\<open>emit\<close> calls it
  with the arguments that \<^verbatim>\<open>emit\<close> passes.
\<close>

theorem once_fires_once:
  assumes "registry_ok s" and "plain_without n (bus_key b) s" and "args_fn a = UserFn n"
  shows "count_calls n (calls (emits (bus_key b) es (snd (once b a s)))) \<le>
           count_calls n (calls s) + 1 \<and>
         ((\<exists>ep \<in> set es. matching a (fst ep)) \<longrightarrow>
            count_calls n (calls (emits (bus_key b) es (snd (once b a s)))) =
              count_calls n (calls s) + 1) \<and>
         (matching a event \<longrightarrow>
            (n, passed a event payload) \<in> set (calls_since (length (calls s))
               (emit (bus_key b) event payload (snd (once b a s)))))"
proof (cases a)
  case (One f)
  with assms(3) have a: "a = One (UserFn n)" by (simp add: args_fn_def)
  from once_listener_fires_once [OF assms(1,2), of es event payload]
  show ?thesis by (auto simp: a matching_def passed_def)
next
  case (Two ev f)
  with assms(3) have a: "a = Two ev (UserFn n)" by (simp add: args_fn_def)
  from once_handler_fires_once [OF assms(1,2), of es ev payload]
  show ?thesis by (auto simp: a matching_def passed_def)
qed

text \<open>
  C5 asks that after \<^verbatim>\<open>once(h)\<close> and two \<^verbatim>\<open>emit\<close> calls of the matching event \<open>h\<close> was
  called exactly once. After four \<^verbatim>\<open>once\<close> registrations, \<^verbatim>\<open>emit('a'); emit('b')\<close> calls
  \<open>L1\<close>, \<open>L3\<close> and \<open>L2\<close>; \<open>L4\<close> is not called at all, since each closure that removes
  itself makes \<^verbatim>\<open>forEach\<close> miss the next one.
\<close>

theorem once_misses:
  "entry_of (Str ''news'') four_once =
     Some ([OnceListener 0 (Str ''news'') (UserFn 1), OnceListener 1 (Str ''news'') (UserFn 2),
            OnceListener 2 (Str ''news'') (UserFn 3), OnceListener 3 (Str ''news'') (UserFn 4)], []) \<and>
   calls (emits (Str ''news'') [(Str ''a'', Undefined), (Str ''b'', Undefined)] four_once) =
     [(1, [Str ''a'', Undefined]), (3, [Str ''a'', Undefined]), (2, [Str ''b'', Undefined])] \<and>
   count_calls 4 (calls (emits (Str ''news'') [(Str ''a'', Undefined), (Str ''b'', Undefined)] four_once)) = 0"
  by (simp add: four_once_def bus_defs count_calls_def)

text \<open>
  On a new bus, \<^verbatim>\<open>once(L7); emit('a'); emit('b')\<close> calls \<open>L7\<close> once, with
  \<^verbatim>\<open>('a', undefined)\<close>; on the bus of \<^verbatim>\<open>on(L1); on('specific', S2)\<close>,
  \<^verbatim>\<open>once('specific', H7)\<close> and three \<^verbatim>\<open>emit\<close> calls, two of them matching, call \<open>H7\<close> once.
\<close>

theorem once_fires_once_witness:
  "registry_ok init \<and> plain_without 7 (bus_key news) init \<and> args_fn (One (UserFn 7)) = UserFn 7 \<and>
   matching (One (UserFn 7)) (Str ''a'') \<and>
   count_calls 7 (calls (emits (bus_key news) [(Str ''a'', Undefined), (Str ''b'', Undefined)]
      (snd (once news (One (UserFn 7)) init)))) = 1 \<and>
   (7, [Str ''a'', Undefined]) \<in> set (calls_since 0
      (emit (bus_key news) (Str ''a'') Undefined (snd (once news (One (UserFn 7)) init)))) \<and>
   registry_ok news_specific \<and> plain_without 7 (bus_key news) news_specific \<and>
   matching (Two (Str ''specific'') (UserFn 7)) (Str ''specific'') \<and>
   count_calls 7 (calls (emits (bus_key news)
      [(Str ''other'', Str ''x''), (Str ''specific'', Str ''y''), (Str ''specific'', Str ''z'')]
      (snd (once news (Two (Str ''specific'') (UserFn 7)) news_specific)))) = 1"
proof -
  have wf0: "registry_ok init" by (simp add: registry_ok_def entry_ok_def init_def)
  have plain0: "plain_without 7 (bus_key news) init"
    by (simp add: plain_without_def events_get_def init_def)
  have fn: "args_fn (One (UserFn 7)) = UserFn 7" "args_fn (Two (Str ''specific'') (UserFn 7)) = UserFn 7"
    by (simp_all add: args_fn_def)
  have log0: "calls init = []" by (simp add: init_def)
  have wf1: "registry_ok news_specific"
    by (simp add: registry_ok_def entry_ok_def addrs_def news_specific_def bus_defs)
  have plain1: "plain_without 7 (bus_key news) news_specific"
    by (simp add: plain_without_def addrs_def news_specific_def bus_defs)
  have log1: "calls news_specific = []" by (simp add: news_specific_def bus_defs)
  let ?es0 = "[(Str ''a'', Undefined), (Str ''b'', Undefined)]"
  let ?es1 = "[(Str ''other'', Str ''x''), (Str ''specific'', Str ''y''), (Str ''specific'', Str ''z'')]"
  have m0: "matching (One (UserFn 7)) (Str ''a'')"
    and m1: "matching (Two (Str ''specific'') (UserFn 7)) (Str ''specific'')"
    by (simp_all add: matching_def)
  have e0: "\<exists>ep \<in> set ?es0. matching (One (UserFn 7)) (fst ep)"
    and e1: "\<exists>ep \<in> set ?es1. matching (Two (Str ''specific'') (UserFn 7)) (fst ep)"
    by (auto simp: matching_def)
  have zero: "count_calls 7 [] = 0"
    by (simp add: count_calls_def)
  from once_fires_once [OF wf0 plain0 fn(1), of ?es0 "Str ''a''" Undefined] e0 m0
  have "count_calls 7 (calls (emits (bus_key news) ?es0 (snd (once news (One (UserFn 7)) init)))) = 1"
    and "(7, [Str ''a'', Undefined]) \<in> set (calls_since 0
      (emit (bus_key news) (Str ''a'') Undefined (snd (once news (One (UserFn 7)) init))))"
    by (simp_all add: zero log0 passed_def)
  moreover from once_fires_once [OF wf1 plain1 fn(2), of ?es1 "Str ''specific''" Undefined] e1 m1
  have "count_calls 7 (calls (emits (bus_key news) ?es1
      (snd (once news (Two (Str ''specific'') (UserFn 7)) news_specific)))) = 1"
    by (simp add: zero log1)
  ultimately show ?thesis using wf0 plain0 wf1 plain1 fn m0 m1 by simp
qed

subsection \<open>The entries of other identifiers\<close>


lemma registry_ok_disjoint:
  assumes "registry_ok s" and "events_get key s = Some r" and "events_get key' s = Some r'"
    and "key \<noteq> key'"
  shows "set (addrs r) \<inter> set (addrs r') = {}"
proof -
  from assms(2,3) have mem: "(key, r) \<in> set (events s)" "(key', r') \<in> set (events s)"
    by (simp_all add: events_get_def map_of_SomeD)
  from assms(1) have "\<forall>p \<in> set (events s). \<forall>q \<in> set (events s).
      fst p \<noteq> fst q \<longrightarrow> set (addrs (snd p)) \<inter> set (addrs (snd q)) = {}"
    by (simp add: registry_ok_def case_prod_beta)
  from bspec [OF bspec [OF this mem(1)] mem(2)] assms(4) show ?thesis by simp
qed




lemma off_other:
  "key' \<noteq> key \<Longrightarrow> events_get key' (off key a s) = events_get key' s"
  by (cases a)
    (simp_all add: off_One_eq off_Two_eq events_get_def events_set_def events_delete_def
      update_conv' delete_conv' Let_def split: option.splits)

lemma off_heap:
  "heap (off key a s) x = heap s x \<or>
   x \<in> set (kaddrs key s) \<and> heap (off key a s) x = remove1 (args_fn a) (heap s x)"
proof (cases a)
  case (One f)
  then show ?thesis
    by (simp add: off_One_eq kaddrs_def addrs_def events_delete_def args_fn_def
        split: option.splits)
next
  case (Two event f)
  show ?thesis
  proof (cases "events_get key s")
    case None
    then show ?thesis by (simp add: Two off_Two_eq)
  next
    case (Some r)
    show ?thesis
    proof (cases "map_of (handlerMap r) event")
      case None
      with Some show ?thesis
        by (simp add: Two off_Two_eq events_set_def events_delete_def)
    next
      case (Some a0)
      then have "(event, a0) \<in> set (handlerMap r)" by (rule map_of_SomeD)
      then have "a0 \<in> set (addrs r)" by (force simp: addrs_def)
      with Some \<open>events_get key s = Some r\<close> show ?thesis
        by (simp add: Two off_Two_eq events_set_def events_delete_def kaddrs_def args_fn_def
            Let_def)
    qed
  qed
qed


lemma off_calls: "calls (off key a s) = calls s"
  by (cases a)
    (simp_all add: off_One_eq off_Two_eq events_set_def events_delete_def Let_def
      split: option.splits)

lemma off_next_addr: "next_addr (off key a s) = next_addr s"
  by (cases a)
    (simp_all add: off_One_eq off_Two_eq events_set_def events_delete_def Let_def
      split: option.splits)




lemma forEach_from_invariant:
  assumes "P s" and "\<And>s f. P s \<Longrightarrow> f \<in> set (heap s a) \<Longrightarrow> P (cb f s)"
  shows "P (forEach_from n k a cb s)"
  using assms(1)
proof (induction n arbitrary: k s)
  case 0
  then show ?case by simp
next
  case (Suc n)
  have "P (if k < length (heap s a) then cb (heap s a ! k) s else s)"
    using Suc.prems assms(2) by simp
  then show ?case by (simp add: Suc.IH)
qed



lemma on_other:
  "key' \<noteq> bus_key b \<Longrightarrow> events_get key' (snd (on b a s)) = events_get key' s"
  by (cases a) (simp_all add: on_defs split: option.splits prod.splits)

lemma on_heap:
  "heap (snd (on b a s)) x = heap s x \<or> x \<in> set (kaddrs (bus_key b) s) \<or> next_addr s \<le> x"
proof (cases "events_get (bus_key b) s")
  case None
  show ?thesis
  proof (cases a)
    case (One f)
    with on_One_absent [OF None, of f] show ?thesis by auto
  next
    case (Two event f)
    with on_Two_absent [OF None, of event f] show ?thesis by auto
  qed
next
  case (Some r)
  show ?thesis
  proof (cases a)
    case (One f)
    with on_One_present [OF Some, of f] Some show ?thesis by (auto simp: kaddrs_def addrs_def)
  next
    case (Two event f)
    show ?thesis
    proof (cases "map_of (handlerMap r) (bus_key b)")
      case None
      with on_Two_present [OF Some, of event f] Two show ?thesis by auto
    next
      case (Some a0)
      then have "(bus_key b, a0) \<in> set (handlerMap r)" by (rule map_of_SomeD)
      then have "a0 \<in> set (addrs r)" by (force simp: addrs_def)
      with on_Two_present [OF \<open>events_get (bus_key b) s = Some r\<close>, of event f] Two Some
        \<open>events_get (bus_key b) s = Some r\<close>
      show ?thesis by (auto simp: kaddrs_def)
    qed
  qed
qed


lemma registry_ok_next_fn: "registry_ok (s\<lparr>next_fn := m\<rparr>) = registry_ok s"
  by (simp add: registry_ok_def entry_ok_def)






subsection \<open>The states of the module\<close>

text \<open>
  \<open>registry_ok\<close> holds of the empty registry and is kept by every operation, so it holds
  of every state that a sequence of operations reaches.
\<close>

lemma registry_ok_iff:
  "registry_ok s \<longleftrightarrow>
     distinct (map fst (events s)) \<and>
     (\<forall>k r. events_get k s = Some r \<longrightarrow> entry_ok s k r) \<and>
     (\<forall>k k' r r'. events_get k s = Some r \<longrightarrow> events_get k' s = Some r' \<longrightarrow> k \<noteq> k' \<longrightarrow>
        set (addrs r) \<inter> set (addrs r') = {})"
proof (cases "distinct (map fst (events s))")
  case False
  then show ?thesis by (simp add: registry_ok_def)
next
  case True
  then have mem: "events_get k s = Some r \<longleftrightarrow> (k, r) \<in> set (events s)" for k r
    by (simp add: events_get_def)
  have entries: "(\<forall>(k, r) \<in> set (events s). entry_ok s k r) \<longleftrightarrow>
      (\<forall>k r. (k, r) \<in> set (events s) \<longrightarrow> entry_ok s k r)"
    by auto
  have apart: "(\<forall>(k, r) \<in> set (events s). \<forall>(k', r') \<in> set (events s).
        k \<noteq> k' \<longrightarrow> set (addrs r) \<inter> set (addrs r') = {}) \<longleftrightarrow>
      (\<forall>k k' r r'. (k, r) \<in> set (events s) \<longrightarrow> (k', r') \<in> set (events s) \<longrightarrow> k \<noteq> k' \<longrightarrow>
        set (addrs r) \<inter> set (addrs r') = {})"
    by fast
  show ?thesis
    unfolding registry_ok_def mem entries apart using True by simp
qed

lemma registry_ok_shrink:
  assumes ok: "registry_ok s"
    and d: "distinct (map fst (events s'))"
    and na: "next_addr s \<le> next_addr s'"
    and hp: "\<And>a. set (heap s' a) \<subseteq> set (heap s a)"
    and en: "\<And>k r'. events_get k s' = Some r' \<Longrightarrow>
               \<exists>r. events_get k s = Some r \<and> listeners r' = listeners r \<and>
                   set (handlerMap r') \<subseteq> set (handlerMap r)"
  shows "registry_ok s'"
proof -
  have sub: "set (addrs r') \<subseteq> set (addrs r)"
    if "listeners r' = listeners r" "set (handlerMap r') \<subseteq> set (handlerMap r)" for r r'
    using that by (auto simp: addrs_def)
  have "entry_ok s' k r'" if r': "events_get k s' = Some r'" for k r'
  proof -
    from en [OF r'] obtain r where r: "events_get k s = Some r"
      and l: "listeners r' = listeners r" and h: "set (handlerMap r') \<subseteq> set (handlerMap r)"
      by blast
    from ok r have old: "entry_ok s k r" by (simp add: registry_ok_iff)
    have "listeners r' \<notin> set (map snd (handlerMap r'))"
      using old l h by (auto simp: entry_ok_def)
    moreover have "a < next_addr s' \<and> (\<forall>f \<in> set (heap s' a). owned k f)"
      if "a \<in> set (addrs r')" for a
    proof -
      from that sub [OF l h] have "a \<in> set (addrs r)" by blast
      with old have "a < next_addr s" and "\<forall>f \<in> set (heap s a). owned k f"
        by (simp_all add: entry_ok_def)
      with na hp [of a] show ?thesis by auto
    qed
    ultimately show ?thesis by (simp add: entry_ok_def)
  qed
  moreover have "set (addrs r1') \<inter> set (addrs r2') = {}"
    if "events_get k1 s' = Some r1'" "events_get k2 s' = Some r2'" "k1 \<noteq> k2" for k1 k2 r1' r2'
  proof -
    from en [OF that(1)] obtain r1 where r1: "events_get k1 s = Some r1"
      and s1: "set (addrs r1') \<subseteq> set (addrs r1)" using sub by blast
    from en [OF that(2)] obtain r2 where r2: "events_get k2 s = Some r2"
      and s2: "set (addrs r2') \<subseteq> set (addrs r2)" using sub by blast
    from ok r1 r2 that(3) have "set (addrs r1) \<inter> set (addrs r2) = {}"
      by (simp add: registry_ok_iff)
    with s1 s2 show ?thesis by blast
  qed
  ultimately show ?thesis using d by (simp add: registry_ok_iff)
qed

lemma in_set_deleteD: "p \<in> set (AList.delete k al) \<Longrightarrow> p \<in> set al"
  using set_delete_subset [of k al] by blast

lemma off_distinct:
  "distinct (map fst (events s)) \<Longrightarrow> distinct (map fst (events (off key a s)))"
  by (cases a)
    (simp_all add: off_One_eq off_Two_eq events_set_def events_delete_def distinct_update
      distinct_delete Let_def split: option.splits)

lemma off_entry:
  assumes "events_get k (off key a s) = Some r'"
  shows "\<exists>r. events_get k s = Some r \<and> listeners r' = listeners r \<and>
             set (handlerMap r') \<subseteq> set (handlerMap r)"
proof (cases "k = key")
  case False
  with assms off_other [of k key a s] show ?thesis by simp
next
  case True
  show ?thesis
  proof (cases a)
    case (One f)
    with assms True show ?thesis
      by (simp add: off_One_eq events_get_def events_delete_def delete_conv'
          split: option.splits if_splits)
  next
    case (Two event f)
    with assms True show ?thesis
      by (auto dest: in_set_deleteD simp: off_Two_eq events_get_def events_set_def events_delete_def delete_conv'
          update_conv' handlerMap_delete_def Let_def split: option.splits if_splits)
  qed
qed

lemma off_registry_ok:
  assumes "registry_ok s"
  shows "registry_ok (off key a s)"
proof (rule registry_ok_shrink [OF assms])
  from assms show "distinct (map fst (events (off key a s)))"
    by (simp add: registry_ok_def off_distinct)
  show "next_addr s \<le> next_addr (off key a s)" by (simp add: off_next_addr)
  show "set (heap (off key a s) x) \<subseteq> set (heap s x)" for x
    using off_heap [of key a s x] set_remove1_subset [of "args_fn a" "heap s x"] by auto
  show "\<exists>r. events_get k s = Some r \<and> listeners r' = listeners r \<and>
            set (handlerMap r') \<subseteq> set (handlerMap r)"
    if "events_get k (off key a s) = Some r'" for k r'
    using that by (rule off_entry)
qed

lemma registry_ok_calls: "registry_ok (s\<lparr>calls := cs\<rparr>) = registry_ok s"
  by (simp add: registry_ok_def entry_ok_def)

lemma invoke_registry_ok:
  "registry_ok s \<Longrightarrow> registry_ok (invoke f argv s)"
proof (induction f arbitrary: s)
  case (UserFn n)
  then show ?case by (simp add: invoke.simps registry_ok_calls)
next
  case (OnceListener u key g)
  then show ?case by (simp add: invoke.simps off_registry_ok)
next
  case (OnceHandler u key event g)
  then show ?case by (simp add: invoke.simps off_registry_ok)
qed

lemma forEach_registry_ok:
  assumes "registry_ok s"
  shows "registry_ok (forEach a (\<lambda>v. invoke v argv) s)"
  unfolding forEach_def
  by (rule forEach_from_invariant [where P = registry_ok]) (simp_all add: assms invoke_registry_ok)

lemma emit_registry_ok:
  assumes "registry_ok s"
  shows "registry_ok (emit key event payload s)"
proof (cases "events_get key s")
  case None
  with assms show ?thesis by (simp add: emit_def)
next
  case (Some r)
  have "registry_ok (case map_of (handlerMap r) event of None \<Rightarrow> s
                     | Some a \<Rightarrow> forEach a (\<lambda>v. invoke v [payload]) s)"
    using assms by (simp add: forEach_registry_ok split: option.splits)
  then show ?thesis by (simp add: emit_unfold [OF Some] forEach_registry_ok)
qed

lemma reset_registry_ok:
  assumes "registry_ok s"
  shows "registry_ok (reset key s)"
proof (rule registry_ok_shrink [OF assms])
  from assms show "distinct (map fst (events (reset key s)))"
    by (simp add: registry_ok_def reset_def events_delete_def distinct_delete)
  show "next_addr s \<le> next_addr (reset key s)" by (simp add: reset_def events_delete_def)
  show "set (heap (reset key s) x) \<subseteq> set (heap s x)" for x
    by (simp add: reset_def events_delete_def)
  show "\<exists>r. events_get k s = Some r \<and> listeners r' = listeners r \<and>
            set (handlerMap r') \<subseteq> set (handlerMap r)"
    if "events_get k (reset key s) = Some r'" for k r'
    using that
    by (cases "k = key") (simp_all add: reset_def events_delete_def events_get_def delete_conv')
qed

lemma registry_ok_grow:
  assumes ok: "registry_ok s"
    and d: "distinct (map fst (events s'))"
    and others: "\<And>k. k \<noteq> key \<Longrightarrow> events_get k s' = events_get k s"
    and mine: "events_get key s' = Some r'"
    and r'_ok: "entry_ok s' key r'"
    and na: "next_addr s \<le> next_addr s'"
    and hp: "\<And>a. heap s' a = heap s a \<or> a \<in> set (kaddrs key s) \<or> next_addr s \<le> a"
    and fresh: "set (addrs r') \<subseteq> set (kaddrs key s) \<union> {a. next_addr s \<le> a}"
  shows "registry_ok s'"
proof -
  have old: "a < next_addr s \<and> a \<notin> set (kaddrs key s) \<and> (\<forall>f \<in> set (heap s a). owned k f)"
    if "k \<noteq> key" "events_get k s = Some r" "a \<in> set (addrs r)" for k r a
  proof -
    from ok that(2) have "entry_ok s k r" by (simp add: registry_ok_iff)
    with that(3) have "a < next_addr s" "\<forall>f \<in> set (heap s a). owned k f"
      by (simp_all add: entry_ok_def)
    moreover have "a \<notin> set (kaddrs key s)"
    proof (cases "events_get key s")
      case None
      then show ?thesis by (simp add: kaddrs_def)
    next
      case (Some rk)
      from registry_ok_disjoint [OF ok Some that(2)] that(1,3) show ?thesis
        by (auto simp: kaddrs_def Some)
    qed
    ultimately show ?thesis by simp
  qed
  have "entry_ok s' k r" if r: "events_get k s' = Some r" for k r
  proof (cases "k = key")
    case True
    with r mine r'_ok show ?thesis by simp
  next
    case False
    with r others have r0: "events_get k s = Some r" by simp
    from ok r0 have e: "entry_ok s k r" by (simp add: registry_ok_iff)
    have "a < next_addr s' \<and> (\<forall>f \<in> set (heap s' a). owned k f)" if "a \<in> set (addrs r)" for a
    proof -
      from old [OF False r0 that] hp [of a] have "heap s' a = heap s a" by auto
      with old [OF False r0 that] na show ?thesis by auto
    qed
    with e show ?thesis by (simp add: entry_ok_def)
  qed
  moreover have "set (addrs r1) \<inter> set (addrs r2) = {}"
    if "events_get k1 s' = Some r1" "events_get k2 s' = Some r2" "k1 \<noteq> k2" for k1 k2 r1 r2
  proof -
    have one: "set (addrs r) \<inter> set (addrs r') = {}"
      if "k \<noteq> key" "events_get k s = Some r" for k r
      using old [OF that] fresh by fastforce
    show ?thesis
    proof (cases "k1 = key")
      case True
      with that mine others have "r1 = r'" "events_get k2 s = Some r2" "k2 \<noteq> key" by auto
      with one [of k2 r2] show ?thesis by auto
    next
      case False
      show ?thesis
      proof (cases "k2 = key")
        case True
        with that mine others False have "r2 = r'" "events_get k1 s = Some r1" by auto
        with one [OF False] show ?thesis by auto
      next
        case k2: False
        with False that others have "events_get k1 s = Some r1" "events_get k2 s = Some r2"
          by auto
        from registry_ok_disjoint [OF ok this that(3)] show ?thesis .
      qed
    qed
  qed
  ultimately show ?thesis using d by (simp add: registry_ok_iff)
qed

lemma on_distinct:
  "distinct (map fst (events s)) \<Longrightarrow> distinct (map fst (events (snd (on b a s))))"
  by (cases a)
    (simp_all add: on.simps get_or_new_def events_get_def events_set_def push_def scope_push_def
      new_array_def handlerMap_set_def distinct_update Let_def split: option.splits prod.splits)

lemma on_next_addr:
  "next_addr (snd (on b a s)) =
     (case events_get (bus_key b) s of
        None \<Rightarrow> (case a of One f \<Rightarrow> Suc (next_addr s) | Two event f \<Rightarrow> Suc (Suc (next_addr s)))
      | Some r \<Rightarrow>
          (case a of
             One f \<Rightarrow> next_addr s
           | Two event f \<Rightarrow>
               (case map_of (handlerMap r) (bus_key b) of
                  None \<Rightarrow> Suc (next_addr s)
                | Some a0 \<Rightarrow> next_addr s)))"
  by (cases a) (simp_all add: on_defs split: option.splits prod.splits)

lemma on_mine:
  assumes ok: "registry_ok s" and f: "owned (bus_key b) (args_fn a)"
  shows "\<exists>r'. events_get (bus_key b) (snd (on b a s)) = Some r' \<and>
           entry_ok (snd (on b a s)) (bus_key b) r' \<and>
           set (addrs r') \<subseteq> set (kaddrs (bus_key b) s) \<union> {x. next_addr s \<le> x}"
proof (cases "events_get (bus_key b) s")
  case None
  show ?thesis
  proof (cases a)
    case (One g)
    with f have g: "owned (bus_key b) g" by (simp add: args_fn_def)
    from on_One_absent [OF None, of g] on_next_addr [of b a s] None One g
    show ?thesis by (simp add: entry_ok_def addrs_def)
  next
    case (Two event g)
    with f have g: "owned (bus_key b) g" by (simp add: args_fn_def)
    from on_Two_absent [OF None, of event g] on_next_addr [of b a s] None Two g
    show ?thesis by (simp add: entry_ok_def addrs_def)
  qed
next
  case (Some r)
  from ok Some have old: "entry_ok s (bus_key b) r" by (simp add: registry_ok_iff)
  then have sep: "listeners r \<notin> snd ` set (handlerMap r)"
    and below: "\<forall>x \<in> set (addrs r). x < next_addr s"
    and own: "\<forall>x \<in> set (addrs r). \<forall>h \<in> set (heap s x). owned (bus_key b) h"
    by (simp_all add: entry_ok_def)
  have ka: "kaddrs (bus_key b) s = addrs r" by (simp add: kaddrs_def Some)
  show ?thesis
  proof (cases a)
    case (One g)
    with f have g: "owned (bus_key b) g" by (simp add: args_fn_def)
    let ?s' = "snd (on b (One g) s)"
    note after = on_One_present [OF Some, of g]
    from on_next_addr [of b a s] Some One have na: "next_addr ?s' = next_addr s" by simp
    have "entry_ok ?s' (bus_key b) r"
      using after sep below own g na by (auto simp: entry_ok_def)
    with after One show ?thesis by (auto simp: ka)
  next
    case (Two event g)
    with f have g: "owned (bus_key b) g" by (simp add: args_fn_def)
    let ?s' = "snd (on b (Two event g) s)"
    note after = on_Two_present [OF Some, of event g]
    define a0 where "a0 = (case map_of (handlerMap r) (bus_key b) of Some x \<Rightarrow> x | None \<Rightarrow> next_addr s)"
    define xs where "xs = (case map_of (handlerMap r) (bus_key b) of Some x \<Rightarrow> heap s x | None \<Rightarrow> [])"
    let ?r' = "r\<lparr>handlerMap := AList.update event a0 (handlerMap r)\<rparr>"
    have entry': "events_get (bus_key b) ?s' = Some ?r'"
      using after by (simp add: a0_def cong: option.case_cong)
    have heap': "heap ?s' = (heap s)(a0 := xs @ [g])"
      using after by (simp add: a0_def xs_def split: option.splits)
    have ls_in: "listeners r \<in> set (addrs r)" by (simp add: addrs_def)
    have hm_in: "x \<in> set (addrs r)" if "x \<in> snd ` set (handlerMap r)" for x
      using that by (simp add: addrs_def)
    have a0_cases: "a0 \<in> snd ` set (handlerMap r) \<and> xs = heap s a0 \<and> next_addr ?s' = next_addr s \<or>
                    a0 = next_addr s \<and> xs = [] \<and> next_addr ?s' = Suc (next_addr s)"
    proof (cases "map_of (handlerMap r) (bus_key b)")
      case None
      with on_next_addr [of b "Two event g" s] Some show ?thesis
        by (simp add: a0_def xs_def)
    next
      case (Some x)
      then have "(bus_key b, x) \<in> set (handlerMap r)" by (rule map_of_SomeD)
      then have "x \<in> snd ` set (handlerMap r)" by force
      with on_next_addr [of b "Two event g" s] Some \<open>events_get (bus_key b) s = Some r\<close>
      show ?thesis by (simp add: a0_def xs_def)
    qed
    have a0_ne: "a0 \<noteq> listeners r"
      using a0_cases sep below ls_in by fastforce
    have xs_own: "\<forall>h \<in> set xs. owned (bus_key b) h"
      using a0_cases own hm_in by fastforce
    have na: "next_addr s \<le> next_addr ?s'" and a0_lt: "a0 < next_addr ?s'"
      using a0_cases below hm_in by fastforce+
    have in_r': "x = listeners r \<or> x = a0 \<or> x \<in> snd ` set (handlerMap r)"
      if "x \<in> set (addrs ?r')" for x
      using that snd_update_subset [of event a0 "handlerMap r"] by (auto simp: addrs_def)
    have "listeners ?r' \<notin> set (map snd (handlerMap ?r'))"
      using snd_update_subset [of event a0 "handlerMap r"] sep a0_ne by auto
    moreover have "x < next_addr ?s' \<and> (\<forall>h \<in> set (heap ?s' x). owned (bus_key b) h)"
      if x: "x \<in> set (addrs ?r')" for x
    proof (cases "x = a0")
      case True
      with a0_lt xs_own g show ?thesis by (simp add: heap')
    next
      case False
      with in_r' [OF x] ls_in hm_in have "x \<in> set (addrs r)" by auto
      with below own na False show ?thesis by (fastforce simp: heap')
    qed
    ultimately have "entry_ok ?s' (bus_key b) ?r'" by (simp add: entry_ok_def)
    moreover have "set (addrs ?r') \<subseteq> set (kaddrs (bus_key b) s) \<union> {x. next_addr s \<le> x}"
    proof
      fix x assume "x \<in> set (addrs ?r')"
      from in_r' [OF this] a0_cases ls_in hm_in
      show "x \<in> set (kaddrs (bus_key b) s) \<union> {x. next_addr s \<le> x}"
        by (auto simp: ka)
    qed
    ultimately show ?thesis using entry' Two by blast
  qed
qed

lemma on_registry_ok:
  assumes ok: "registry_ok s" and f: "owned (bus_key b) (args_fn a)"
  shows "registry_ok (snd (on b a s))"
proof -
  from on_mine [OF ok f] obtain r' where
    mine: "events_get (bus_key b) (snd (on b a s)) = Some r'"
    and r'_ok: "entry_ok (snd (on b a s)) (bus_key b) r'"
    and fresh: "set (addrs r') \<subseteq> set (kaddrs (bus_key b) s) \<union> {x. next_addr s \<le> x}"
    by blast
  show ?thesis
  proof (rule registry_ok_grow [OF ok _ _ mine r'_ok _ _ fresh])
    from ok show "distinct (map fst (events (snd (on b a s))))"
      by (simp add: registry_ok_def on_distinct)
    show "events_get k (snd (on b a s)) = events_get k s" if "k \<noteq> bus_key b" for k
      using that by (rule on_other)
    show "next_addr s \<le> next_addr (snd (on b a s))"
      by (simp add: on_next_addr split: option.splits args.splits)
    show "heap (snd (on b a s)) x = heap s x \<or> x \<in> set (kaddrs (bus_key b) s) \<or> next_addr s \<le> x"
      for x by (rule on_heap)
  qed
qed

lemma once_registry_ok:
  assumes ok: "registry_ok s" and f: "owned (bus_key b) (args_fn a)"
  shows "registry_ok (snd (once b a s))"
proof -
  have ok': "registry_ok (s\<lparr>next_fn := Suc (next_fn s)\<rparr>)"
    using ok by (simp add: registry_ok_next_fn)
  show ?thesis
  proof (cases a)
    case (One g)
    with f have "owned (bus_key b) (args_fn (One (OnceListener (next_fn s) (bus_key b) g)))"
      by (simp add: args_fn_def)
    from on_registry_ok [OF ok' this] One show ?thesis by (simp add: once.simps)
  next
    case (Two event g)
    with f have "owned (bus_key b) (args_fn (Two event (OnceHandler (next_fn s) (bus_key b) event g)))"
      by (simp add: args_fn_def)
    from on_registry_ok [OF ok' this] Two show ?thesis by (simp add: once.simps)
  qed
qed

lemma registry_ok_init: "registry_ok init"
  by (simp add: registry_ok_def init_def)

lemma apply_op_registry_ok:
  assumes "registry_ok s" and "op_ok b x"
  shows "registry_ok (apply_op b x s)"
  using assms
  by (cases x)
    (simp_all add: op_ok_def on_registry_ok once_registry_ok off_registry_ok emit_registry_ok
      reset_registry_ok)

lemma run_registry_ok:
  "registry_ok s \<Longrightarrow> \<forall>x \<in> set xs. op_ok (fst x) (snd x) \<Longrightarrow> registry_ok (run xs s)"
  by (induction xs arbitrary: s) (simp_all add: apply_op_registry_ok)

subsection \<open>\<^verbatim>\<open>off\<close> twice\<close>

text \<open>
  A second \<^verbatim>\<open>off\<close> right after the first, for a function that no array holds twice,
  changes nothing.
\<close>

lemma remove1_once:
  "count_list xs f \<le> 1 \<Longrightarrow> f \<notin> set (remove1 f xs)"
proof (induction xs)
  case Nil
  then show ?case by simp
next
  case (Cons x xs)
  show ?case
  proof (cases "x = f")
    case True
    with Cons.prems have "count_list xs f = 0" by simp
    then have "f \<notin> set xs" by (simp add: count_list_0_iff)
    with True show ?thesis by simp
  next
    case False
    with Cons show ?thesis by simp
  qed
qed

lemma off_twice:
  assumes "\<forall>x. count_list (heap s x) (args_fn a) \<le> 1"
  shows "off key a (off key a s) = off key a s"
proof (cases a)
  case (One f)
  show ?thesis
  proof (cases "events_get key s")
    case None
    then show ?thesis by (simp add: One off_One_eq)
  next
    case (Some r)
    let ?ys = "remove1 f (heap s (listeners r))"
    from assms One have gone: "f \<notin> set ?ys" by (simp add: remove1_once args_fn_def)
    show ?thesis
    proof (cases "?ys = []")
      case True
      with Some show ?thesis
        by (simp add: One off_One_eq events_get_def events_delete_def delete_conv')
    next
      case False
      with Some gone show ?thesis
        by (simp add: One off_One_eq events_get_def remove1_idem)
    qed
  qed
next
  case (Two event f)
  show ?thesis
  proof (cases "events_get key s")
    case None
    then show ?thesis by (simp add: Two off_Two_eq)
  next
    case (Some r)
    show ?thesis
    proof (cases "map_of (handlerMap r) event")
      case None
      then have "event \<notin> fst ` set (handlerMap r)" by (simp add: map_of_eq_None_iff)
      then have same: "AList.delete event (handlerMap r) = handlerMap r" by simp
      from Some have "AList.update key r (events s) = events s"
        by (simp add: events_get_def update_triv)
      with Some None same show ?thesis
        by (simp add: Two off_Two_eq events_get_def events_set_def events_delete_def
            handlerMap_delete_def delete_conv')
    next
      case (Some a0)
      let ?ys = "remove1 f (heap s a0)"
      from assms Two have gone: "f \<notin> set ?ys" by (simp add: remove1_once args_fn_def)
      note r = \<open>events_get key s = Some r\<close>
      show ?thesis
      proof (cases "?ys = []")
        case True
        with r Some show ?thesis
          by (simp add: Two off_Two_eq events_get_def events_set_def events_delete_def
              handlerMap_delete_def delete_conv' update_conv' delete_idem Let_def)
      next
        case False
        from r have "AList.update key r (events s) = events s"
          by (simp add: events_get_def update_triv)
        with r Some gone False show ?thesis
          by (simp add: Two off_Two_eq events_get_def events_set_def events_delete_def
              handlerMap_delete_def delete_conv' update_conv' remove1_idem Let_def)
      qed
    qed
  qed
qed

end
